theory Spec2Isabelle
  imports Main "HOL-Library.Sublist"
begin

section \<open>Strings and the string methods the converter calls\<close>

text \<open>
  A source string is modelled as a \<^typ>\<open>string\<close>: a list of code units, each below 256.
  The white space of \<^verbatim>\<open>trim\<close> and of the class \<^verbatim>\<open>\s\<close> is, in that range, tab, line feed,
  vertical tab, form feed, carriage return, space and the no-break space; the line
  terminators of \<^verbatim>\<open>^\<close> and \<^verbatim>\<open>$\<close> under the flag \<^verbatim>\<open>m\<close> are line feed and carriage return.
\<close>

definition ws_chars :: "char list" where
  "ws_chars = [CHR 0x09, CHR 0x0A, CHR 0x0B, CHR 0x0C, CHR 0x0D, CHR 0x20, CHR 0xA0]"

definition line_terminators :: "char list" where
  "line_terminators = [CHR 0x0A, CHR 0x0D]"

definition digit_chars :: "char list" where
  "digit_chars = ''0123456789''"

definition word_chars :: "char list" where
  "word_chars = ''abcdefghijklmnopqrstuvwxyzABCDEFGHIJKLMNOPQRSTUVWXYZ0123456789_''"

definition is_ws :: "char \<Rightarrow> bool" where
  "is_ws c = (c \<in> set ws_chars)"

text \<open>\<^verbatim>\<open>s.trim()\<close>\<close>

definition trim :: "string \<Rightarrow> string" where
  "trim s = rev (dropWhile is_ws (rev (dropWhile is_ws s)))"

text \<open>\<^verbatim>\<open>s.startsWith(w)\<close>, \<^verbatim>\<open>s.endsWith(w)\<close>, \<^verbatim>\<open>s.includes(w)\<close>\<close>

fun startsWith :: "string \<Rightarrow> string \<Rightarrow> bool" where
  "startsWith s [] = True"
| "startsWith [] (c # cs) = False"
| "startsWith (x # xs) (c # cs) = (x = c \<and> startsWith xs cs)"

definition endsWith :: "string \<Rightarrow> string \<Rightarrow> bool" where
  "endsWith s w = startsWith (rev s) (rev w)"

fun includes_str :: "string \<Rightarrow> string \<Rightarrow> bool" where
  "includes_str [] w = (w = [])"
| "includes_str (x # xs) w = (startsWith (x # xs) w \<or> includes_str xs w)"

text \<open>\<^verbatim>\<open>s.slice(a, -b)\<close> for \<open>a\<close> and \<open>b\<close> not negative: from index \<open>a\<close> up to \<open>b\<close> before the end,
  empty when that end is not after \<open>a\<close>.\<close>

definition slice_to_end_minus :: "nat \<Rightarrow> nat \<Rightarrow> string \<Rightarrow> string" where
  "slice_to_end_minus a b s = take (length s - b - a) (drop a s)"

text \<open>\<^verbatim>\<open>s.split('\n')[0]\<close>: the text before the first line feed.\<close>

definition first_split_line :: "string \<Rightarrow> string" where
  "first_split_line s = takeWhile (\<lambda>c. c \<noteq> CHR 0x0A) s"

section \<open>Regular expressions: a backtracking matcher\<close>

text \<open>
  The regular expressions of the source are written as terms of \<open>re\<close>, one constructor
  for each construct the source uses. \<open>Cls\<close> is a character class given by its members,
  \<open>NCls\<close> a negated class, \<open>Star\<close> the greedy \<^verbatim>\<open>*\<close>, \<open>Bol\<close> and \<open>Eol\<close> the assertions \<^verbatim>\<open>^\<close> and
  \<^verbatim>\<open>$\<close>, \<open>WordB\<close> the assertion \<^verbatim>\<open>\b\<close>, \<open>Grp n\<close> the \<open>n\<close>-th capturing group.
\<close>

datatype re =
    Lit string
  | Cls "char list"
  | NCls "char list"
  | Seq re re
  | Alt re re
  | Star re
  | Bol
  | Eol
  | WordB
  | Grp nat re

text \<open>
  A matcher state: the code unit before the current position (none at index 0), the
  input from the current position on, and the captures made so far, newest first.
\<close>

record mstate =
  prev :: "char option"
  rest :: string
  caps :: "(nat \<times> string) list"

definition step_over :: "string \<Rightarrow> mstate \<Rightarrow> mstate" where
  "step_over w s = s\<lparr>prev := (if w = [] then prev s else Some (last w)),
                     rest := drop (length w) (rest s)\<rparr>"

definition at_bol :: "bool \<Rightarrow> mstate \<Rightarrow> bool" where
  "at_bol multiline s =
     (case prev s of None \<Rightarrow> True | Some c \<Rightarrow> multiline \<and> c \<in> set line_terminators)"

definition at_eol :: "bool \<Rightarrow> mstate \<Rightarrow> bool" where
  "at_eol multiline s =
     (case rest s of [] \<Rightarrow> True | c # cs \<Rightarrow> multiline \<and> c \<in> set line_terminators)"

definition at_word_boundary :: "mstate \<Rightarrow> bool" where
  "at_word_boundary s =
     ((case prev s of None \<Rightarrow> False | Some c \<Rightarrow> c \<in> set word_chars) \<noteq>
      (case rest s of [] \<Rightarrow> False | c # cs \<Rightarrow> c \<in> set word_chars))"

text \<open>
  \<open>matches m r s\<close> lists the states in which a match of \<open>r\<close> from \<open>s\<close> can end, in the
  order in which a backtracking matcher tries them: the head is the match the engine
  reports. An iteration of \<open>Star\<close> that consumes nothing is rejected, as in the source
  language.
\<close>

function matches :: "bool \<Rightarrow> re \<Rightarrow> mstate \<Rightarrow> mstate list" where
  "matches m (Lit w) s = (if startsWith (rest s) w then [step_over w s] else [])"
| "matches m (Cls cs) s =
     (case rest s of [] \<Rightarrow> [] | c # xs \<Rightarrow> if c \<in> set cs then [step_over [c] s] else [])"
| "matches m (NCls cs) s =
     (case rest s of [] \<Rightarrow> [] | c # xs \<Rightarrow> if c \<notin> set cs then [step_over [c] s] else [])"
| "matches m (Seq a b) s = concat (map (matches m b) (matches m a s))"
| "matches m (Alt a b) s = matches m a s @ matches m b s"
| "matches m (Star a) s =
     concat (map (matches m (Star a))
                 (filter (\<lambda>t. length (rest t) < length (rest s)) (matches m a s))) @ [s]"
| "matches m Bol s = (if at_bol m s then [s] else [])"
| "matches m Eol s = (if at_eol m s then [s] else [])"
| "matches m WordB s = (if at_word_boundary s then [s] else [])"
| "matches m (Grp n a) s =
     map (\<lambda>t. t\<lparr>caps := (n, take (length (rest s) - length (rest t)) (rest s)) # caps t\<rparr>)
         (matches m a s)"
  by pat_completeness auto
termination
  by (relation "inv_image (less_than <*lex*> less_than) (\<lambda>(m, r, s). (size r, length (rest s)))")
     auto

text \<open>Derived forms: \<^verbatim>\<open>r+\<close>, \<^verbatim>\<open>r?\<close>, \<^verbatim>\<open>r{lo,hi}\<close>, \<^verbatim>\<open>r{lo,}\<close>, a sequence and an alternation.\<close>

definition Plus :: "re \<Rightarrow> re" where
  "Plus r = Seq r (Star r)"

definition Opt :: "re \<Rightarrow> re" where
  "Opt r = Alt r (Lit [])"

fun Rep :: "nat \<Rightarrow> nat \<Rightarrow> re \<Rightarrow> re" where
  "Rep 0 0 r = Lit []"
| "Rep 0 (Suc hi) r = Opt (Seq r (Rep 0 hi r))"
| "Rep (Suc lo) hi r = Seq r (Rep lo (hi - 1) r)"

fun RepMin :: "nat \<Rightarrow> re \<Rightarrow> re" where
  "RepMin 0 r = Star r"
| "RepMin (Suc lo) r = Seq r (RepMin lo r)"

fun Seqs :: "re list \<Rightarrow> re" where
  "Seqs [] = Lit []"
| "Seqs [r] = r"
| "Seqs (r # rs) = Seq r (Seqs rs)"

fun Alts :: "string list \<Rightarrow> re" where
  "Alts [] = Cls []"
| "Alts [w] = Lit w"
| "Alts (w # ws) = Alt (Lit w) (Alts ws)"

definition start_state :: "char option \<Rightarrow> string \<Rightarrow> mstate" where
  "start_state p s = \<lparr>prev = p, rest = s, caps = []\<rparr>"

text \<open>
  \<open>first_match\<close> is the match the engine reports at one position, if any.
  \<^verbatim>\<open>regex.exec(s)\<close> for a regular expression without the flag \<^verbatim>\<open>g\<close>: the first match, tried
  from index 0 upwards. \<^verbatim>\<open>regex.test(s)\<close> and the truth value of \<^verbatim>\<open>s.match(regex)\<close> say
  whether there is one; \<open>match_group n\<close> is the element \<open>n\<close> of the array \<^verbatim>\<open>s.match(regex)\<close>.
\<close>

definition first_match :: "bool \<Rightarrow> re \<Rightarrow> mstate \<Rightarrow> mstate option" where
  "first_match m r s = (case matches m r s of [] \<Rightarrow> None | t # ts \<Rightarrow> Some t)"

fun exec_from :: "bool \<Rightarrow> re \<Rightarrow> char option \<Rightarrow> string \<Rightarrow> mstate option" where
  "exec_from m r p [] = first_match m r (start_state p [])"
| "exec_from m r p (c # cs) =
     (case first_match m r (start_state p (c # cs)) of
        None \<Rightarrow> exec_from m r (Some c) cs
      | Some t \<Rightarrow> Some t)"

definition test :: "bool \<Rightarrow> re \<Rightarrow> string \<Rightarrow> bool" where
  "test m r s = (exec_from m r None s \<noteq> None)"

definition capture :: "nat \<Rightarrow> mstate \<Rightarrow> string" where
  "capture n t = (case map_of (caps t) n of Some v \<Rightarrow> v | None \<Rightarrow> [])"

definition match_group :: "nat \<Rightarrow> bool \<Rightarrow> re \<Rightarrow> string \<Rightarrow> string option" where
  "match_group n m r s = map_option (capture n) (exec_from m r None s)"

section \<open>Language detection\<close>

definition shell_verbs :: "string list" where
  "shell_verbs = [''npm'', ''npx'', ''yarn'', ''pnpm'', ''cd'', ''ls'', ''git'', ''docker'',
     ''curl'', ''wget'', ''brew'', ''sudo'', ''apt'', ''yum'', ''echo'', ''cat'', ''grep'', ''pip'',
     ''python'', ''node'']"

definition js_keywords :: "string list" where
  "js_keywords = [''import'', ''export'', ''const'', ''let'', ''var'', ''function'', ''class'',
     ''async'', ''interface'', ''type'']"

definition py_keywords :: "string list" where
  "py_keywords = [''def'', ''class'', ''import'', ''from'', ''if __name__'']"

text \<open>\<^verbatim>\<open>/^(npm|npx|...|node)\b/\<close>, \<^verbatim>\<open>/^(import|...|type)\b/\<close>, \<^verbatim>\<open>/^(def|class|import|from|if __name__)\b/\<close>\<close>

definition shell_re :: re where
  "shell_re = Seqs [Bol, Grp 1 (Alts shell_verbs), WordB]"

definition js_re :: re where
  "js_re = Seqs [Bol, Grp 1 (Alts js_keywords), WordB]"

definition py_re :: re where
  "py_re = Seqs [Bol, Grp 1 (Alts py_keywords), WordB]"

text \<open>\<^verbatim>\<open>/^(body|div|span|h[1-6]|#|\.)/\<close>\<close>

definition css_re :: re where
  "css_re = Seq Bol (Grp 1 (Alt (Lit ''body'') (Alt (Lit ''div'') (Alt (Lit ''span'')
     (Alt (Seq (Lit ''h'') (Cls ''123456'')) (Alt (Lit ''#'') (Lit ''.'')))))))"

definition detectLanguage :: "string \<Rightarrow> string" where
  "detectLanguage code =
    (let trimmed = trim code in
     if trimmed = [] then ''text''
     else let firstLine = trim (first_split_line trimmed) in
       if startsWith firstLine ''$'' \<or> test False shell_re firstLine then ''shell''
       else if test False js_re firstLine \<or> includes_str trimmed ''console.log''
               \<or> includes_str trimmed ''=>'' \<or> includes_str trimmed ''document.getElementById''
         then ''javascript''
       else if test False py_re firstLine
               \<or> (includes_str firstLine '':'' \<and> \<not> includes_str firstLine ''{''
                   \<and> \<not> includes_str firstLine '';'')
         then ''python''
       else if startsWith trimmed ''<'' \<and> endsWith trimmed ''>'' then ''html''
       else if startsWith trimmed ''{'' \<and> endsWith trimmed ''}'' then ''json''
       else if includes_str trimmed ''{'' \<and> test False css_re firstLine then ''css''
       else ''shell'')"

section \<open>Replacing with a regular expression\<close>

text \<open>
  A replacement string is a list of literal pieces and group references: \<^verbatim>\<open>'$1### $2$3'\<close>
  is \<open>[G 1, T ''### '', G 2, G 3]\<close>. A reference to a group that did not take part in the
  match expands to the empty string.
\<close>

datatype tpl = T string | G nat

fun expand :: "tpl list \<Rightarrow> mstate \<Rightarrow> string" where
  "expand [] t = []"
| "expand (T w # ps) t = w @ expand ps t"
| "expand (G n # ps) t = capture n t @ expand ps t"

text \<open>
  \<^verbatim>\<open>s.replace(regex, replacement)\<close> for a regular expression with the flag \<^verbatim>\<open>g\<close>: the input
  is scanned from left to right; where the expression matches, the replacement is
  emitted and the scan goes on after the match (one code unit further when the match is
  empty); elsewhere the code unit is copied.
\<close>

function replace_from :: "bool \<Rightarrow> re \<Rightarrow> tpl list \<Rightarrow> char option \<Rightarrow> string \<Rightarrow> string" where
  "replace_from m r tp p s =
     (case first_match m r (start_state p s) of
        None \<Rightarrow> (case s of [] \<Rightarrow> [] | c # cs \<Rightarrow> c # replace_from m r tp (Some c) cs)
      | Some t \<Rightarrow>
          if length (rest t) < length s
          then expand tp t @ replace_from m r tp (prev t) (rest t)
          else expand tp t @
               (case s of [] \<Rightarrow> [] | c # cs \<Rightarrow> c # replace_from m r tp (Some c) cs))"
  by pat_completeness auto
termination
  by (relation "measure (\<lambda>(m, r, tp, p, s). length s)") auto

definition replace_g :: "bool \<Rightarrow> re \<Rightarrow> tpl list \<Rightarrow> string \<Rightarrow> string" where
  "replace_g m r tp s = replace_from m r tp None s"

section \<open>Post-processing\<close>

definition ws :: re where
  "ws = Cls ws_chars"

definition digit :: re where
  "digit = Cls digit_chars"

text \<open>1. \<^verbatim>\<open>/^(\s*)\*\*([^*\n]+)\*\*(\s*)$/gm\<close>\<close>

definition emphasis_re :: re where
  "emphasis_re = Seqs [Bol, Grp 1 (Star ws), Lit ''**'', Grp 2 (Plus (NCls [CHR ''*'', CHR 0x0A])),
     Lit ''**'', Grp 3 (Star ws), Eol]"

text \<open>2. \<^verbatim>\<open>/^(\s*)\d+\.\s/gm\<close>\<close>

definition ordered_re :: re where
  "ordered_re = Seqs [Bol, Grp 1 (Star ws), Plus digit, Lit ''.'', ws]"

text \<open>3. \<^verbatim>\<open>/^( {2})([-*]|\d+\.)/gm\<close> and \<^verbatim>\<open>/^( {4})([-*]|\d+\.)/gm\<close>\<close>

definition list_marker :: re where
  "list_marker = Alt (Cls ''-*'') (Seq (Plus digit) (Lit ''.''))"

definition indent2_re :: re where
  "indent2_re = Seqs [Bol, Grp 1 (Rep 2 2 (Lit '' '')), Grp 2 list_marker]"

definition indent4_re :: re where
  "indent4_re = Seqs [Bol, Grp 1 (Rep 4 4 (Lit '' '')), Grp 2 list_marker]"

text \<open>4. \<^verbatim>\<open>/^(#{1,6}\s+\d+)\\\. /gm\<close>\<close>

definition header_period_re :: re where
  "header_period_re =
     Seqs [Bol, Grp 1 (Seqs [Rep 1 6 (Lit ''#''), Plus ws, Plus digit]), Lit [CHR 0x5C, CHR ''.'', CHR '' '']]"

text \<open>5. \<^verbatim>\<open>/([^\n])\n(```)/g\<close> and \<^verbatim>\<open>/(```)\n([^\n])/g\<close>\<close>

definition fence_before_re :: re where
  "fence_before_re = Seqs [Grp 1 (NCls [CHR 0x0A]), Lit [CHR 0x0A], Grp 2 (Lit ''```'')]"

definition fence_after_re :: re where
  "fence_after_re = Seqs [Grp 1 (Lit ''```''), Lit [CHR 0x0A], Grp 2 (NCls [CHR 0x0A])]"

text \<open>
  The steps of \<^verbatim>\<open>postProcessMarkdown\<close>, one definition for each numbered step of the source, in
  its order. The replacement \<^verbatim>\<open>'$11. '\<close> of step 2 is the first group followed by \<^verbatim>\<open>1. \<close>: the
  expression has one group, so the two-digit reference falls back to the one-digit one.
\<close>

definition fix_emphasis_heading :: "string \<Rightarrow> string" where
  "fix_emphasis_heading clean = replace_g True emphasis_re [G 1, T ''### '', G 2, G 3] clean"

definition fix_ordered_prefix :: "string \<Rightarrow> string" where
  "fix_ordered_prefix clean = replace_g True ordered_re [G 1, T ''1. ''] clean"

definition fix_indentation :: "string \<Rightarrow> string" where
  "fix_indentation clean =
     replace_g True indent4_re [T ''        '', G 2]
       (replace_g True indent2_re [T ''    '', G 2] clean)"

definition fix_escaped_periods :: "string \<Rightarrow> string" where
  "fix_escaped_periods clean = replace_g True header_period_re [G 1, T ''. ''] clean"

definition fix_fence_blank_lines :: "string \<Rightarrow> string" where
  "fix_fence_blank_lines clean =
     replace_g False fence_after_re [G 1, T [CHR 0x0A, CHR 0x0A], G 2]
       (replace_g False fence_before_re [G 1, T [CHR 0x0A, CHR 0x0A], G 2] clean)"

definition single_trailing_newline :: "string \<Rightarrow> string" where
  "single_trailing_newline clean = trim clean @ [CHR 0x0A]"

text \<open>Steps 1 to 5: the pattern rewrites.\<close>

definition lint_rewrites :: "string \<Rightarrow> string" where
  "lint_rewrites md =
     fix_fence_blank_lines (fix_escaped_periods (fix_indentation
       (fix_ordered_prefix (fix_emphasis_heading md))))"

definition postProcessMarkdown :: "string \<Rightarrow> string" where
  "postProcessMarkdown md = single_trailing_newline (lint_rewrites md)"

section \<open>Code blocks in the document tree\<close>

text \<open>
  What the normaliser reads and writes of a \<^verbatim>\<open>code\<close> element below a \<^verbatim>\<open>pre\<close>: its class
  attribute, the class attribute of its parent element, and its text content.
\<close>

record code_element =
  className :: string
  parentClassName :: string
  textContent :: string

text \<open>\<^verbatim>\<open>/(?:language-|lang-)(\w+)/\<close>\<close>

definition lang_re :: re where
  "lang_re = Seq (Alt (Lit ''language-'') (Lit ''lang-'')) (Grp 1 (Plus (Cls word_chars)))"

text \<open>
  \<^verbatim>\<open>element.classList.add(token)\<close>: the class attribute is split at white space into its
  tokens, each kept once at its first place; the token is appended unless it is there;
  the attribute becomes the tokens joined by single spaces.
\<close>

definition html_space :: "char list" where
  "html_space = [CHR 0x09, CHR 0x0A, CHR 0x0C, CHR 0x0D, CHR 0x20]"

fun split_tokens :: "string \<Rightarrow> string \<Rightarrow> string list" where
  "split_tokens cur [] = (if cur = [] then [] else [cur])"
| "split_tokens cur (c # cs) =
     (if c \<in> set html_space
      then (if cur = [] then split_tokens [] cs else cur # split_tokens [] cs)
      else split_tokens (cur @ [c]) cs)"

fun ordered_set :: "string list \<Rightarrow> string list \<Rightarrow> string list" where
  "ordered_set seen [] = seen"
| "ordered_set seen (t # ts) =
     (if t \<in> set seen then ordered_set seen ts else ordered_set (seen @ [t]) ts)"

fun join_tokens :: "string list \<Rightarrow> string" where
  "join_tokens [] = []"
| "join_tokens [t] = t"
| "join_tokens (t # ts) = t @ '' '' @ join_tokens ts"

definition classList_add :: "string \<Rightarrow> string \<Rightarrow> string" where
  "classList_add cls token = join_tokens (ordered_set [] (split_tokens [] cls @ [token]))"

text \<open>The body of the loop over \<^verbatim>\<open>pre code\<close> in \<^verbatim>\<open>convertToMarkdown\<close> (App.tsx).\<close>

definition processCodeBlock :: "code_element \<Rightarrow> code_element" where
  "processCodeBlock element =
    (let element = (if textContent element \<noteq> []
                    then element\<lparr>textContent := trim (textContent element)\<rparr> else element);
         existingClass = (if className element \<noteq> [] then className element
                          else parentClassName element)
     in if \<not> test False lang_re existingClass
        then let lang = detectLanguage (textContent element)
             in if lang \<noteq> []
                then element\<lparr>className := classList_add (className element) (''language-'' @ lang)\<rparr>
                else element
        else element)"

text \<open>
  Modelled from the spec: the translator, a library outside the sources, reads the
  language tag that the normaliser attached to the code element.
\<close>

definition languageTag :: "code_element \<Rightarrow> string" where
  "languageTag element =
     (case match_group 1 False lang_re (className element) of Some l \<Rightarrow> l | None \<Rightarrow> [])"

text \<open>
  Modelled from the spec: for a code block the translator emits the opening fence, the
  language tag immediately after it with no space, a line break, the text of the block,
  a line break and the closing fence.
\<close>

definition emitFencedCodeBlock :: "code_element \<Rightarrow> string" where
  "emitFencedCodeBlock element =
     ''```'' @ languageTag element @ [CHR 0x0A] @ textContent element @ [CHR 0x0A] @ ''```''"

text \<open>\<^verbatim>\<open>convertToMarkdown\<close> (App.tsx) on a document that is one code block.\<close>

definition convertToMarkdown_code_block :: "code_element \<Rightarrow> string" where
  "convertToMarkdown_code_block element =
     postProcessMarkdown (emitFencedCodeBlock (processCodeBlock element))"

section \<open>The rules of the Turndown-based converter\<close>

text \<open>The rule \<^verbatim>\<open>fencedCodeBlock\<close>: its replacement for a \<^verbatim>\<open>pre\<close> whose first child is a \<^verbatim>\<open>code\<close>.\<close>

definition fencedCodeBlock :: "code_element \<Rightarrow> string" where
  "fencedCodeBlock element =
    (let rawCode = textContent element;
         classSource = (if className element \<noteq> [] then className element
                        else parentClassName element);
         lang = (case match_group 1 False lang_re classSource of Some l \<Rightarrow> l | None \<Rightarrow> []);
         lang = (if lang = [] then detectLanguage rawCode else lang)
     in [CHR 0x0A, CHR 0x0A] @ ''```'' @ lang @ [CHR 0x0A] @ trim rawCode @ [CHR 0x0A] @ ''```''
        @ [CHR 0x0A, CHR 0x0A])"

text \<open>The rule \<^verbatim>\<open>emphasisHeading\<close>, with \<^verbatim>\<open>/^\*\*[^*]+\*\*$/\<close>.\<close>

definition bold_only_re :: re where
  "bold_only_re = Seqs [Bol, Lit ''**'', Plus (NCls ''*''), Lit ''**'', Eol]"

definition emphasisHeading :: "string \<Rightarrow> string" where
  "emphasisHeading content =
    (let trimmed = trim content
     in if test False bold_only_re trimmed \<and> length trimmed < 100
        then [CHR 0x0A, CHR 0x0A] @ ''### '' @ slice_to_end_minus 2 2 trimmed
             @ [CHR 0x0A, CHR 0x0A]
        else [CHR 0x0A, CHR 0x0A] @ trimmed @ [CHR 0x0A, CHR 0x0A])"

text \<open>
  The last lines of the Turndown-based \<^verbatim>\<open>convertToMarkdown\<close>, applied to the output of
  the rules: \<^verbatim>\<open>/[ \t]+$/gm\<close> removed, \<^verbatim>\<open>/\n{3,}/g\<close> replaced by two line feeds, trimmed, one
  line feed appended.
\<close>

definition trailing_blanks_re :: re where
  "trailing_blanks_re = Seq (Plus (Cls [CHR '' '', CHR 0x09])) Eol"

definition many_newlines_re :: re where
  "many_newlines_re = RepMin 3 (Lit [CHR 0x0A])"

definition turndown_finish :: "string \<Rightarrow> string" where
  "turndown_finish md =
    (let md = replace_g False many_newlines_re [T [CHR 0x0A, CHR 0x0A]]
                (replace_g True trailing_blanks_re [] md)
     in trim md @ [CHR 0x0A])"

section \<open>Predicates and documents of the statements\<close>

text \<open>A string without white space at either end.\<close>

definition trimmed :: "string \<Rightarrow> bool" where
  "trimmed t = (t = [] \<or> (\<not> is_ws (hd t) \<and> \<not> is_ws (last t)))"

text \<open>
  The last code unit is a line feed and the one before it, if any, is not white space:
  the text ends with one line break, and nothing blank stands before it.
\<close>

definition ends_with_one_line_break :: "string \<Rightarrow> bool" where
  "ends_with_one_line_break s =
     (case rev s of [] \<Rightarrow> False
      | c # cs \<Rightarrow> c = CHR 0x0A \<and> (case cs of [] \<Rightarrow> True | d # ds \<Rightarrow> \<not> is_ws d))"

text \<open>The lines of a text, and whether one of them ends with a space or a tab.\<close>

fun split_on :: "char \<Rightarrow> string \<Rightarrow> string \<Rightarrow> string list" where
  "split_on d cur [] = [cur]"
| "split_on d cur (c # cs) = (if c = d then cur # split_on d [] cs else split_on d (cur @ [c]) cs)"

definition has_trailing_blank :: "string \<Rightarrow> bool" where
  "has_trailing_blank l = (l \<noteq> [] \<and> (last l = CHR '' '' \<or> last l = CHR 0x09))"

definition no_trailing_blanks :: "string \<Rightarrow> bool" where
  "no_trailing_blanks s = list_all (\<lambda>l. \<not> has_trailing_blank l) (split_on (CHR 0x0A) [] s)"

definition trailing_form :: "string \<Rightarrow> bool" where
  "trailing_form s = (ends_with_one_line_break s \<and> no_trailing_blanks s)"

text \<open>
  An item of an ordered list as a line of Markdown: white space, a number, a period, one
  white space character that ends no line, and a body within the line.
\<close>

record list_item =
  indent :: string
  number :: string
  sep :: char
  body :: string

definition valid_item :: "list_item \<Rightarrow> bool" where
  "valid_item it =
     (list_all (\<lambda>c. c \<in> set ws_chars) (indent it)
      \<and> number it \<noteq> [] \<and> list_all (\<lambda>c. c \<in> set digit_chars) (number it)
      \<and> sep it \<in> set ws_chars \<and> sep it \<notin> set line_terminators
      \<and> list_all (\<lambda>c. c \<notin> set line_terminators) (body it))"

definition item_line :: "list_item \<Rightarrow> string" where
  "item_line it = indent it @ number it @ ''.'' @ [sep it] @ body it"

definition renumbered_line :: "list_item \<Rightarrow> string" where
  "renumbered_line it = indent it @ ''1. '' @ body it"

fun join_lines :: "string list \<Rightarrow> string" where
  "join_lines [] = []"
| "join_lines [l] = l"
| "join_lines (l # ls) = l @ [CHR 0x0A] @ join_lines ls"

text \<open>
  An item at the top level whose body is not empty, has no backtick and does not end
  with white space.
\<close>

definition plain_item :: "list_item \<Rightarrow> bool" where
  "plain_item it =
     (indent it = [] \<and> valid_item it \<and> body it \<noteq> [] \<and> \<not> is_ws (last (body it))
      \<and> list_all (\<lambda>c. c \<noteq> CHR ''`'') (body it))"

text \<open>
  The two replacements of step 5 written as direct recursions over the text: a line feed
  is put between a code unit that is no line feed and a line feed followed by three
  backticks; a line feed is put between three backticks followed by a line feed and a
  code unit that is no line feed. They are proved equal to the replacements below.
\<close>

function ins_before :: "string \<Rightarrow> string" where
  "ins_before [] = []"
| "ins_before (x # r) =
     (if x \<noteq> CHR 0x0A \<and> startsWith r (CHR 0x0A # ''```'')
      then x # CHR 0x0A # CHR 0x0A # ''```'' @ ins_before (drop 4 r)
      else x # ins_before r)"
  by pat_completeness auto
termination
  by (relation "measure length") auto

function ins_after :: "string \<Rightarrow> string" where
  "ins_after [] = []"
| "ins_after (x # r) =
     (if startsWith (x # r) (''```'' @ [CHR 0x0A]) \<and> drop 3 r \<noteq> [] \<and> hd (drop 3 r) \<noteq> CHR 0x0A
      then ''```'' @ [CHR 0x0A, CHR 0x0A, hd (drop 3 r)] @ ins_after (drop 4 r)
      else x # ins_after r)"
  by pat_completeness auto
termination
  by (relation "measure length") auto









text \<open>
  Spaces and tabs, and whether a text has one of them right before a line feed.
\<close>

definition blank_chars :: "char list" where
  "blank_chars = [CHR '' '', CHR 0x09]"

fun no_blank_before_lf :: "string \<Rightarrow> bool" where
  "no_blank_before_lf [] = True"
| "no_blank_before_lf [c] = True"
| "no_blank_before_lf (c # d # r) =
     (\<not> (c \<in> set blank_chars \<and> d = CHR 0x0A) \<and> no_blank_before_lf (d # r))"

text \<open>
  Documents on which the post-processor is followed through all its steps. A line is
  prose, an item of an ordered list at the top level (a number, a period, one white space
  character, a body), or a bold-only line (a text between two pairs of asterisks).
\<close>

datatype md_line = Prose string | Item string char string | Bold string

fun line_text :: "md_line \<Rightarrow> string" where
  "line_text (Prose l) = l"
| "line_text (Item n s b) = n @ ''.'' @ [s] @ b"
| "line_text (Bold t) = ''**'' @ t @ ''**''"

text \<open>
  What step 1 makes of a line (\<open>promote\<close>: a bold-only line becomes a heading of level 3),
  what step 2 makes of it (\<open>renumber\<close>: the marker of an item becomes \<^verbatim>\<open>1.\<close> and a space), and
  the two in that order (\<open>settled\<close>).
\<close>

fun promote :: "md_line \<Rightarrow> md_line" where
  "promote (Prose l) = Prose l"
| "promote (Item n s b) = Item n s b"
| "promote (Bold t) = Prose (''### '' @ t)"

fun renumber :: "md_line \<Rightarrow> md_line" where
  "renumber (Prose l) = Prose l"
| "renumber (Item n s b) = Item ''1'' (CHR '' '') b"
| "renumber (Bold t) = Bold t"

definition settled :: "md_line \<Rightarrow> md_line" where
  "settled l = renumber (promote l)"

text \<open>
  The lines admitted. A plain text is not empty, does not end with white space and has
  no line terminator, no backtick and no backslash. Prose is a plain text that starts
  with a code unit other than white space, a digit and the asterisk (so a heading, an
  item of an unordered list written with a hyphen and a paragraph are prose). An item has
  a number of one digit or more, a white space character that ends no line, and a plain
  body. A bold-only line has a plain text without asterisk between its markers.
\<close>

definition plain_text :: "string \<Rightarrow> bool" where
  "plain_text l =
     (l \<noteq> [] \<and> \<not> is_ws (last l)
      \<and> list_all (\<lambda>c. c \<notin> set line_terminators \<and> c \<noteq> CHR ''`'' \<and> c \<noteq> CHR 0x5C) l)"

fun line_ok :: "md_line \<Rightarrow> bool" where
  "line_ok (Prose l) =
     (plain_text l \<and> \<not> is_ws (hd l) \<and> hd l \<notin> set digit_chars \<and> hd l \<noteq> CHR ''*'')"
| "line_ok (Item n s b) =
     (n \<noteq> [] \<and> list_all (\<lambda>c. c \<in> set digit_chars) n
      \<and> is_ws s \<and> s \<notin> set line_terminators \<and> plain_text b)"
| "line_ok (Bold t) = (plain_text t \<and> CHR ''*'' \<notin> set t)"

text \<open>
  The text of a document: its first line; then every further line, after the line feed
  that ends the line before it and \<open>k\<close> empty lines (\<open>k\<close> line feeds more); then \<open>j\<close> line
  feeds at the end.
\<close>

fun following :: "(nat \<times> md_line) list \<Rightarrow> nat \<Rightarrow> string" where
  "following [] j = replicate j (CHR 0x0A)"
| "following ((k, l) # bs) j =
     CHR 0x0A # replicate k (CHR 0x0A) @ line_text l @ following bs j"

definition document :: "md_line \<Rightarrow> (nat \<times> md_line) list \<Rightarrow> nat \<Rightarrow> string" where
  "document l0 bs j = line_text l0 @ following bs j"

definition doc_ok :: "md_line \<Rightarrow> (nat \<times> md_line) list \<Rightarrow> bool" where
  "doc_ok l0 bs = (line_ok l0 \<and> list_all (\<lambda>b. line_ok (snd b)) bs)"

section \<open>Properties\<close>

declare matches.simps [simp del]
declare replace_from.simps [simp del]

subsection \<open>The match the engine reports first\<close>

lemma fm_Seq:
  assumes "first_match m a s = Some t" "first_match m b t = Some u"
  shows "first_match m (Seq a b) s = Some u"
proof -
  from assms(1) obtain ts where 1: "matches m a s = t # ts"
    by (auto simp: first_match_def split: list.splits)
  from assms(2) obtain us where 2: "matches m b t = u # us"
    by (auto simp: first_match_def split: list.splits)
  show ?thesis by (simp add: first_match_def matches.simps(4) 1 2)
qed

lemma fm_Seq_None:
  assumes "first_match m a s = None"
  shows "first_match m (Seq a b) s = None"
proof -
  from assms have "matches m a s = []" by (auto simp: first_match_def split: list.splits)
  then show ?thesis by (simp add: first_match_def matches.simps(4))
qed

lemma fm_Grp:
  assumes "first_match m a s = Some t"
  shows "first_match m (Grp n a) s
         = Some (t\<lparr>caps := (n, take (length (rest s) - length (rest t)) (rest s)) # caps t\<rparr>)"
proof -
  from assms obtain ts where 1: "matches m a s = t # ts"
    by (auto simp: first_match_def split: list.splits)
  show ?thesis by (simp add: first_match_def matches.simps(10) 1)
qed

lemma startsWith_append: "startsWith (w @ r) w"
  by (induction w) auto

lemma fm_Lit:
  "first_match m (Lit w) \<lparr>prev = p, rest = w @ r, caps = c\<rparr>
   = Some \<lparr>prev = (if w = [] then p else Some (last w)), rest = r, caps = c\<rparr>"
  by (simp add: first_match_def matches.simps(1) startsWith_append step_over_def)

lemma fm_Bol: "at_bol m s \<Longrightarrow> first_match m Bol s = Some s"
  by (simp add: first_match_def matches.simps(7))

lemma fm_Bol_None: "\<not> at_bol m s \<Longrightarrow> first_match m Bol s = None"
  by (simp add: first_match_def matches.simps(7))

lemma fm_Eol: "at_eol m s \<Longrightarrow> first_match m Eol s = Some s"
  by (simp add: first_match_def matches.simps(8))

lemma fm_Cls:
  "x \<in> set cs \<Longrightarrow> first_match m (Cls cs) \<lparr>prev = p, rest = x # r, caps = c\<rparr>
     = Some \<lparr>prev = Some x, rest = r, caps = c\<rparr>"
  by (simp add: first_match_def matches.simps(2,3) step_over_def)

lemma fm_NCls:
  "x \<notin> set cs \<Longrightarrow> first_match m (NCls cs) \<lparr>prev = p, rest = x # r, caps = c\<rparr>
     = Some \<lparr>prev = Some x, rest = r, caps = c\<rparr>"
  by (simp add: first_match_def matches.simps(2,3) step_over_def)

text \<open>A greedy star over a class takes the whole run.\<close>

lemma fm_Star_Cls:
  assumes "set w \<subseteq> set cs" "r = [] \<or> hd r \<notin> set cs"
  shows "first_match m (Star (Cls cs)) \<lparr>prev = p, rest = w @ r, caps = c\<rparr>
         = Some \<lparr>prev = (if w = [] then p else Some (last w)), rest = r, caps = c\<rparr>"
  using assms
proof (induction w arbitrary: p)
  case Nil
  then have "matches m (Cls cs) \<lparr>prev = p, rest = r, caps = c\<rparr> = []"
    by (cases r) (auto simp: matches.simps(2,3))
  then show ?case by (subst first_match_def, subst matches.simps(6)) simp
next
  case (Cons x w)
  have 1: "matches m (Cls cs) \<lparr>prev = p, rest = x # w @ r, caps = c\<rparr>
           = [\<lparr>prev = Some x, rest = w @ r, caps = c\<rparr>]"
    using Cons.prems by (simp add: matches.simps(2,3) step_over_def)
  from Cons.IH[of "Some x"] Cons.prems obtain ts where
    2: "matches m (Star (Cls cs)) \<lparr>prev = Some x, rest = w @ r, caps = c\<rparr>
        = \<lparr>prev = (if w = [] then Some x else Some (last w)), rest = r, caps = c\<rparr> # ts"
    by (auto simp: first_match_def split: list.splits)
  show ?case
    by (subst first_match_def, subst matches.simps(6)) (simp add: 1 2)
qed

lemma fm_Star_NCls:
  assumes "set w \<inter> set cs = {}" "r = [] \<or> hd r \<in> set cs"
  shows "first_match m (Star (NCls cs)) \<lparr>prev = p, rest = w @ r, caps = c\<rparr>
         = Some \<lparr>prev = (if w = [] then p else Some (last w)), rest = r, caps = c\<rparr>"
  using assms
proof (induction w arbitrary: p)
  case Nil
  then have "matches m (NCls cs) \<lparr>prev = p, rest = r, caps = c\<rparr> = []"
    by (cases r) (auto simp: matches.simps(2,3))
  then show ?case by (subst first_match_def, subst matches.simps(6)) simp
next
  case (Cons x w)
  have 1: "matches m (NCls cs) \<lparr>prev = p, rest = x # w @ r, caps = c\<rparr>
           = [\<lparr>prev = Some x, rest = w @ r, caps = c\<rparr>]"
    using Cons.prems by (simp add: matches.simps(2,3) step_over_def)
  from Cons.IH[of "Some x"] Cons.prems obtain ts where
    2: "matches m (Star (NCls cs)) \<lparr>prev = Some x, rest = w @ r, caps = c\<rparr>
        = \<lparr>prev = (if w = [] then Some x else Some (last w)), rest = r, caps = c\<rparr> # ts"
    by (auto simp: first_match_def split: list.splits)
  show ?case
    by (subst first_match_def, subst matches.simps(6)) (simp add: 1 2)
qed

lemma fm_Plus_Cls:
  assumes "w \<noteq> []" "set w \<subseteq> set cs" "r = [] \<or> hd r \<notin> set cs"
  shows "first_match m (Plus (Cls cs)) \<lparr>prev = p, rest = w @ r, caps = c\<rparr>
         = Some \<lparr>prev = Some (last w), rest = r, caps = c\<rparr>"
proof -
  from assms(1) obtain x w' where w: "w = x # w'" by (cases w) auto
  have 1: "first_match m (Cls cs) \<lparr>prev = p, rest = x # (w' @ r), caps = c\<rparr>
           = Some \<lparr>prev = Some x, rest = w' @ r, caps = c\<rparr>"
    using assms(2) w by (intro fm_Cls) auto
  have 2: "first_match m (Star (Cls cs)) \<lparr>prev = Some x, rest = w' @ r, caps = c\<rparr>
           = Some \<lparr>prev = (if w' = [] then Some x else Some (last w')), rest = r, caps = c\<rparr>"
    using assms(2,3) w by (intro fm_Star_Cls) auto
  show ?thesis unfolding Plus_def using fm_Seq[OF 1 2] w by simp
qed

lemma fm_Plus_NCls:
  assumes "w \<noteq> []" "set w \<inter> set cs = {}" "r = [] \<or> hd r \<in> set cs"
  shows "first_match m (Plus (NCls cs)) \<lparr>prev = p, rest = w @ r, caps = c\<rparr>
         = Some \<lparr>prev = Some (last w), rest = r, caps = c\<rparr>"
proof -
  from assms(1) obtain x w' where w: "w = x # w'" by (cases w) auto
  have 1: "first_match m (NCls cs) \<lparr>prev = p, rest = x # (w' @ r), caps = c\<rparr>
           = Some \<lparr>prev = Some x, rest = w' @ r, caps = c\<rparr>"
    using assms(2) w by (intro fm_NCls) auto
  have 2: "first_match m (Star (NCls cs)) \<lparr>prev = Some x, rest = w' @ r, caps = c\<rparr>
           = Some \<lparr>prev = (if w' = [] then Some x else Some (last w')), rest = r, caps = c\<rparr>"
    using assms(2,3) w by (intro fm_Star_NCls) auto
  show ?thesis unfolding Plus_def using fm_Seq[OF 1 2] w by simp
qed

subsection \<open>Scanning\<close>

lemma replace_from_no_match:
  "first_match m r (start_state p (c # cs)) = None
   \<Longrightarrow> replace_from m r tp p (c # cs) = c # replace_from m r tp (Some c) cs"
  by (subst replace_from.simps) simp

lemma replace_from_Nil_no_match:
  "first_match m r (start_state p []) = None \<Longrightarrow> replace_from m r tp p [] = []"
  by (subst replace_from.simps) simp

lemma replace_from_match:
  "first_match m r (start_state p s) = Some t \<Longrightarrow> length (rest t) < length s
   \<Longrightarrow> replace_from m r tp p s = expand tp t @ replace_from m r tp (prev t) (rest t)"
  by (subst replace_from.simps) simp

lemma anchored_no_match:
  "c0 \<notin> set line_terminators \<Longrightarrow> first_match m (Seq Bol x) (start_state (Some c0) s) = None"
  by (intro fm_Seq_None fm_Bol_None) (simp add: at_bol_def start_state_def)

lemma anchored_skip:
  assumes "c0 \<notin> set line_terminators" "set t \<inter> set line_terminators = {}"
  shows "replace_from m (Seq Bol x) tp (Some c0) (t @ r)
         = t @ replace_from m (Seq Bol x) tp (Some (last (c0 # t))) r"
  using assms
proof (induction t arbitrary: c0)
  case Nil
  then show ?case by simp
next
  case (Cons a t)
  have "replace_from m (Seq Bol x) tp (Some c0) (a # (t @ r))
        = a # replace_from m (Seq Bol x) tp (Some a) (t @ r)"
    using Cons.prems(1) by (intro replace_from_no_match anchored_no_match)
  moreover have "replace_from m (Seq Bol x) tp (Some a) (t @ r)
        = t @ replace_from m (Seq Bol x) tp (Some (last (a # t))) r"
    using Cons.prems(2) by (intro Cons.IH) auto
  ultimately show ?case by simp
qed

lemma digits_not_ws: "c \<in> set digit_chars \<Longrightarrow> c \<notin> set ws_chars"
  by (auto simp: digit_chars_def ws_chars_def)

lemma ordered_re_unfold:
  "ordered_re = Seq Bol (Seq (Grp 1 (Star (Cls ws_chars)))
                  (Seq (Plus (Cls digit_chars)) (Seq (Lit ''.'') (Cls ws_chars))))"
  by (simp add: ordered_re_def ws_def digit_def)

lemma ordered_first_match:
  assumes bol: "p = None \<or> (\<exists>c. p = Some c \<and> c \<in> set line_terminators)"
    and ind: "set ind \<subseteq> set ws_chars"
    and num: "num \<noteq> []" "set num \<subseteq> set digit_chars"
    and sep: "s \<in> set ws_chars"
  shows "first_match True ordered_re (start_state p (ind @ num @ ''.'' @ s # r))
         = Some \<lparr>prev = Some s, rest = r, caps = [(1, ind)]\<rparr>"
proof -
  let ?s0 = "\<lparr>prev = p, rest = ind @ (num @ ''.'' @ s # r), caps = []\<rparr>"
  have "hd num \<in> set digit_chars" using num by (cases num) auto
  then have hdn: "hd (num @ ''.'' @ s # r) \<notin> set ws_chars"
    using num(1) by (simp add: digits_not_ws)
  have 0: "first_match True Bol ?s0 = Some ?s0"
    using bol by (intro fm_Bol) (auto simp: at_bol_def)
  have "first_match True (Star (Cls ws_chars)) ?s0
        = Some \<lparr>prev = (if ind = [] then p else Some (last ind)),
                 rest = num @ ''.'' @ s # r, caps = []\<rparr>"
    using ind hdn by (intro fm_Star_Cls) auto
  from fm_Grp[OF this, of 1]
  have 1: "first_match True (Grp 1 (Star (Cls ws_chars))) ?s0
        = Some \<lparr>prev = (if ind = [] then p else Some (last ind)),
                 rest = num @ (''.'' @ s # r), caps = [(1, ind)]\<rparr>"
    by simp
  have 2: "first_match True (Plus (Cls digit_chars))
             \<lparr>prev = (if ind = [] then p else Some (last ind)),
              rest = num @ (''.'' @ s # r), caps = [(1, ind)]\<rparr>
        = Some \<lparr>prev = Some (last num), rest = ''.'' @ s # r, caps = [(1, ind)]\<rparr>"
    using num by (intro fm_Plus_Cls) (auto simp: digit_chars_def)
  have 3: "first_match True (Lit ''.'')
             \<lparr>prev = Some (last num), rest = ''.'' @ s # r, caps = [(1, ind)]\<rparr>
        = Some \<lparr>prev = Some CHR ''.'', rest = s # r, caps = [(1, ind)]\<rparr>"
    using fm_Lit[of True "''.''" "Some (last num)" "s # r" "[(1, ind)]"] by simp
  have 4: "first_match True (Cls ws_chars)
             \<lparr>prev = Some CHR ''.'', rest = s # r, caps = [(1, ind)]\<rparr>
        = Some \<lparr>prev = Some s, rest = r, caps = [(1, ind)]\<rparr>"
    using sep by (rule fm_Cls)
  show ?thesis
    unfolding ordered_re_unfold start_state_def
    using fm_Seq[OF 0 fm_Seq[OF 1 fm_Seq[OF 2 fm_Seq[OF 3 4]]]] by simp
qed

lemma ordered_no_match_Nil: "first_match True ordered_re (start_state p []) = None"
  unfolding ordered_re_unfold
  by (simp add: first_match_def matches.simps Plus_def start_state_def)

lemma join_lines_Cons: "ls \<noteq> [] \<Longrightarrow> join_lines (l # ls) = l @ [CHR 0x0A] @ join_lines ls"
  by (cases ls) auto

lemma renumber_lines:
  assumes "list_all valid_item items"
    and "p = None \<or> (\<exists>c. p = Some c \<and> c \<in> set line_terminators)"
  shows "replace_from True ordered_re [G 1, T ''1. ''] p (join_lines (map item_line items))
         = join_lines (map renumbered_line items)"
  using assms
proof (induction items arbitrary: p)
  case Nil
  then show ?case by (simp add: replace_from_Nil_no_match ordered_no_match_Nil)
next
  case (Cons it items)
  let ?tp = "[G 1, T ''1. '']"
  define tail where "tail = (if items = [] then [] else [CHR 0x0A] @ join_lines (map item_line items))"
  define tail' where "tail' = (if items = [] then [] else [CHR 0x0A] @ join_lines (map renumbered_line items))"
  from Cons.prems(1) have v: "valid_item it" and vs: "list_all valid_item items" by auto
  have src: "join_lines (map item_line (it # items))
             = indent it @ number it @ ''.'' @ sep it # (body it @ tail)"
    by (cases items) (auto simp: tail_def item_line_def)
  have dst: "join_lines (map renumbered_line (it # items))
             = indent it @ ''1. '' @ body it @ tail'"
    by (cases items) (auto simp: tail'_def renumbered_line_def)
  have fm: "first_match True ordered_re (start_state p (indent it @ number it @ ''.'' @ sep it # (body it @ tail)))
            = Some \<lparr>prev = Some (sep it), rest = body it @ tail, caps = [(1, indent it)]\<rparr>"
    using v Cons.prems(2)
    by (intro ordered_first_match) (auto simp: valid_item_def list_all_iff)
  have step1: "replace_from True ordered_re ?tp p (indent it @ number it @ ''.'' @ sep it # (body it @ tail))
        = indent it @ ''1. '' @ replace_from True ordered_re ?tp (Some (sep it)) (body it @ tail)"
    by (subst replace_from_match[OF fm]) (simp_all add: capture_def)
  have step2: "replace_from True ordered_re ?tp (Some (sep it)) (body it @ tail)
        = body it @ replace_from True ordered_re ?tp (Some (last (sep it # body it))) tail"
    unfolding ordered_re_unfold using v
    by (intro anchored_skip) (auto simp: valid_item_def list_all_iff)
  have lastc: "last (sep it # body it) \<notin> set line_terminators"
    using v by (cases "body it = []") (auto simp: valid_item_def list_all_iff)
  have step3: "replace_from True ordered_re ?tp (Some (last (sep it # body it))) tail = tail'"
  proof (cases "items = []")
    case True
    then show ?thesis
      by (simp add: tail_def tail'_def replace_from_Nil_no_match ordered_no_match_Nil)
  next
    case False
    have "replace_from True ordered_re ?tp (Some (last (sep it # body it)))
            (CHR 0x0A # join_lines (map item_line items))
          = CHR 0x0A # replace_from True ordered_re ?tp (Some CHR 0x0A) (join_lines (map item_line items))"
      unfolding ordered_re_unfold using lastc
      by (intro replace_from_no_match anchored_no_match)
    moreover have "replace_from True ordered_re ?tp (Some CHR 0x0A) (join_lines (map item_line items))
          = join_lines (map renumbered_line items)"
      using vs by (intro Cons.IH) (auto simp: line_terminators_def)
    ultimately show ?thesis using False by (simp add: tail_def tail'_def)
  qed
  show ?case unfolding src dst step1 step2 step3 by simp
qed

subsection \<open>Trimming\<close>

lemma dropWhile_keeps_last:
  "dropWhile P xs \<noteq> [] \<Longrightarrow> last (dropWhile P xs) = last xs"
  by (induction xs) (auto split: if_splits)

lemma trim_is_trimmed: "trimmed (trim s)"
proof (cases "dropWhile is_ws s = []")
  case True
  have "trim s = []" unfolding trim_def True by simp
  then show ?thesis by (simp add: trimmed_def)
next
  case False
  define a where "a = dropWhile is_ws s"
  define b where "b = dropWhile is_ws (rev a)"
  from False have a_ne: "a \<noteq> []" by (simp add: a_def)
  have hd_a: "\<not> is_ws (hd a)" unfolding a_def using False by (rule hd_dropWhile)
  have "hd a \<in> set (rev a)" using a_ne by simp
  with hd_a have b_ne: "b \<noteq> []" unfolding b_def by (auto simp: dropWhile_eq_Nil_conv)
  have hd_b: "\<not> is_ws (hd b)" unfolding b_def using b_ne[unfolded b_def] by (rule hd_dropWhile)
  have "last b = last (rev a)" unfolding b_def using b_ne[unfolded b_def] by (rule dropWhile_keeps_last)
  then have last_b: "last b = hd a" using a_ne by (simp add: last_rev)
  have t: "trim s = rev b" by (simp add: trim_def a_def b_def)
  have "hd (rev b) = last b" using b_ne by (simp add: hd_rev)
  moreover have "last (rev b) = hd b" using b_ne by (simp add: last_rev)
  ultimately show ?thesis using hd_a hd_b last_b b_ne by (simp add: t trimmed_def)
qed

lemma trim_append_ws:
  assumes "t \<noteq> []" "\<not> is_ws (hd t)" "\<not> is_ws (last t)" "\<forall>c\<in>set w. is_ws c"
  shows "trim (t @ w) = t"
proof -
  have 1: "dropWhile is_ws (t @ w) = t @ w" using assms(1,2) by (cases t) auto
  have 2: "dropWhile is_ws (rev w @ rev t) = dropWhile is_ws (rev t)"
    using assms(4) by (intro dropWhile_append2) auto
  have 3: "dropWhile is_ws (rev t) = rev t"
    using assms(1,3) by (cases "rev t") (auto simp: last_rev hd_rev)
  show ?thesis by (simp add: trim_def 1 2 3)
qed

lemma trim_all_ws:
  assumes "\<forall>c\<in>set w. is_ws c"
  shows "trim w = []"
proof -
  have e: "dropWhile is_ws w = []" using assms by (simp add: dropWhile_eq_Nil_conv)
  show ?thesis unfolding trim_def e by simp
qed

lemma is_ws_newline: "is_ws (CHR 0x0A)" by (simp add: is_ws_def ws_chars_def)

subsection \<open>Bold-only lines\<close>

lemma emphasis_re_unfold:
  "emphasis_re = Seq Bol (Seq (Grp 1 (Star (Cls ws_chars))) (Seq (Lit ''**'')
     (Seq (Grp 2 (Plus (NCls [CHR ''*'', CHR 0x0A]))) (Seq (Lit ''**'')
       (Seq (Grp 3 (Star (Cls ws_chars))) Eol)))))"
  by (simp add: emphasis_re_def ws_def)

lemma bold_only_re_unfold:
  "bold_only_re = Seq Bol (Seq (Lit ''**'') (Seq (Plus (NCls ''*'')) (Seq (Lit ''**'') Eol)))"
  by (simp add: bold_only_re_def)

lemma star_not_ws: "CHR ''*'' \<notin> set ws_chars"
  by (simp add: ws_chars_def)

lemma emphasis_first_match:
  assumes "t \<noteq> []" "CHR ''*'' \<notin> set t" "CHR 0x0A \<notin> set t"
  shows "first_match True emphasis_re (start_state None (''**'' @ t @ ''**''))
         = Some \<lparr>prev = Some CHR ''*'', rest = [], caps = [(3, []), (2, t), (1, [])]\<rparr>"
proof -
  let ?s0 = "\<lparr>prev = None, rest = [] @ (''**'' @ t @ ''**''), caps = []\<rparr>"
  have 0: "first_match True Bol ?s0 = Some ?s0"
    by (intro fm_Bol) (simp add: at_bol_def)
  have "first_match True (Star (Cls ws_chars)) ?s0
        = Some \<lparr>prev = (if [] = ([]::string) then None else Some (last [])),
                 rest = ''**'' @ t @ ''**'', caps = []\<rparr>"
    by (intro fm_Star_Cls) (simp_all add: star_not_ws)
  from fm_Grp[OF this, of 1]
  have 1: "first_match True (Grp 1 (Star (Cls ws_chars))) ?s0
        = Some \<lparr>prev = None, rest = ''**'' @ (t @ ''**''), caps = [(1, [])]\<rparr>"
    by simp
  have 2: "first_match True (Lit ''**'') \<lparr>prev = None, rest = ''**'' @ (t @ ''**''), caps = [(1, [])]\<rparr>
        = Some \<lparr>prev = Some CHR ''*'', rest = t @ ''**'', caps = [(1, [])]\<rparr>"
    using fm_Lit[of True "''**''" None "t @ ''**''" "[(1, [])]"] by simp
  have "first_match True (Plus (NCls [CHR ''*'', CHR 0x0A]))
          \<lparr>prev = Some CHR ''*'', rest = t @ ''**'', caps = [(1, [])]\<rparr>
        = Some \<lparr>prev = Some (last t), rest = ''**'', caps = [(1, [])]\<rparr>"
    using assms by (intro fm_Plus_NCls) auto
  from fm_Grp[OF this, of 2]
  have 3: "first_match True (Grp 2 (Plus (NCls [CHR ''*'', CHR 0x0A])))
          \<lparr>prev = Some CHR ''*'', rest = t @ ''**'', caps = [(1, [])]\<rparr>
        = Some \<lparr>prev = Some (last t), rest = ''**'' @ [], caps = [(2, t), (1, [])]\<rparr>"
    by simp
  have 4: "first_match True (Lit ''**'')
          \<lparr>prev = Some (last t), rest = ''**'' @ [], caps = [(2, t), (1, [])]\<rparr>
        = Some \<lparr>prev = Some CHR ''*'', rest = [] @ [], caps = [(2, t), (1, [])]\<rparr>"
    using fm_Lit[of True "''**''" "Some (last t)" "[]" "[(2, t), (1, [])]"] by simp
  have "first_match True (Star (Cls ws_chars))
          \<lparr>prev = Some CHR ''*'', rest = [] @ [], caps = [(2, t), (1, [])]\<rparr>
        = Some \<lparr>prev = (if [] = ([]::string) then Some CHR ''*'' else Some (last [])),
                 rest = [], caps = [(2, t), (1, [])]\<rparr>"
    by (intro fm_Star_Cls) simp_all
  from fm_Grp[OF this, of 3]
  have 5: "first_match True (Grp 3 (Star (Cls ws_chars)))
          \<lparr>prev = Some CHR ''*'', rest = [] @ [], caps = [(2, t), (1, [])]\<rparr>
        = Some \<lparr>prev = Some CHR ''*'', rest = [], caps = [(3, []), (2, t), (1, [])]\<rparr>"
    by simp
  have 6: "first_match True Eol \<lparr>prev = Some CHR ''*'', rest = [], caps = [(3, []), (2, t), (1, [])]\<rparr>
        = Some \<lparr>prev = Some CHR ''*'', rest = [], caps = [(3, []), (2, t), (1, [])]\<rparr>"
    by (intro fm_Eol) (simp add: at_eol_def)
  show ?thesis
    unfolding emphasis_re_unfold start_state_def
    using fm_Seq[OF 0 fm_Seq[OF 1 fm_Seq[OF 2 fm_Seq[OF 3 fm_Seq[OF 4 fm_Seq[OF 5 6]]]]]]
    by simp
qed

lemma fix_emphasis_heading_bold_line:
  assumes "t \<noteq> []" "CHR ''*'' \<notin> set t" "CHR 0x0A \<notin> set t"
  shows "fix_emphasis_heading (''**'' @ t @ ''**'') = ''### '' @ t"
proof -
  let ?tp = "[G 1, T ''### '', G 2, G 3]"
  have tail: "replace_from True emphasis_re ?tp (Some CHR ''*'') [] = []"
    unfolding emphasis_re_unfold
    by (intro replace_from_Nil_no_match anchored_no_match) (simp add: line_terminators_def)
  have step: "replace_from True emphasis_re ?tp None (''**'' @ t @ ''**'')
        = expand ?tp \<lparr>prev = Some CHR ''*'', rest = [], caps = [(3, []), (2, t), (1, [])]\<rparr>
          @ replace_from True emphasis_re ?tp (Some CHR ''*'') []"
    by (subst replace_from_match[OF emphasis_first_match[OF assms]]) simp_all
  show ?thesis
    unfolding fix_emphasis_heading_def replace_g_def step tail by (simp add: capture_def)
qed

lemma bold_only_first_match:
  assumes "t \<noteq> []" "CHR ''*'' \<notin> set t"
  shows "first_match False bold_only_re (start_state None (''**'' @ t @ ''**''))
         = Some \<lparr>prev = Some CHR ''*'', rest = [], caps = []\<rparr>"
proof -
  let ?s0 = "\<lparr>prev = None, rest = ''**'' @ (t @ ''**''), caps = []\<rparr>"
  have 0: "first_match False Bol ?s0 = Some ?s0"
    by (intro fm_Bol) (simp add: at_bol_def)
  have 1: "first_match False (Lit ''**'') ?s0
        = Some \<lparr>prev = Some CHR ''*'', rest = t @ ''**'', caps = []\<rparr>"
    using fm_Lit[of False "''**''" None "t @ ''**''" "[]"] by simp
  have 2: "first_match False (Plus (NCls ''*''))
          \<lparr>prev = Some CHR ''*'', rest = t @ ''**'', caps = []\<rparr>
        = Some \<lparr>prev = Some (last t), rest = ''**'' @ [], caps = []\<rparr>"
    using fm_Plus_NCls[of t "''*''" "''**''" False "Some CHR ''*''" "[]"] assms by simp
  have 3: "first_match False (Lit ''**'') \<lparr>prev = Some (last t), rest = ''**'' @ [], caps = []\<rparr>
        = Some \<lparr>prev = Some CHR ''*'', rest = [], caps = []\<rparr>"
    using fm_Lit[of False "''**''" "Some (last t)" "[]" "[]"] by simp
  have 4: "first_match False Eol \<lparr>prev = Some CHR ''*'', rest = [], caps = []\<rparr>
        = Some \<lparr>prev = Some CHR ''*'', rest = [], caps = []\<rparr>"
    by (intro fm_Eol) (simp add: at_eol_def)
  show ?thesis
    unfolding bold_only_re_unfold start_state_def
    using fm_Seq[OF 0 fm_Seq[OF 1 fm_Seq[OF 2 fm_Seq[OF 3 4]]]] by simp
qed

lemma emphasisHeading_bold:
  assumes "trim content = ''**'' @ t @ ''**''" "t \<noteq> []" "CHR ''*'' \<notin> set t"
    "length (trim content) < 100"
  shows "emphasisHeading content = [CHR 0x0A, CHR 0x0A] @ ''### '' @ t @ [CHR 0x0A, CHR 0x0A]"
proof -
  have "exec_from False bold_only_re None (''**'' @ t @ ''**'') \<noteq> None"
    using bold_only_first_match[OF assms(2,3)] by simp
  then have tst: "test False bold_only_re (trim content)"
    by (simp add: test_def assms(1))
  have sl: "slice_to_end_minus 2 2 (trim content) = t"
    by (simp add: slice_to_end_minus_def assms(1))
  show ?thesis
    using tst sl assms(4) by (simp add: emphasisHeading_def Let_def)
qed

subsection \<open>Blank lines at fences\<close>

lemma startsWith_iff: "startsWith s w = (\<exists>r. s = w @ r)"
  by (induction s w rule: startsWith.induct) auto

lemma fence_before_re_unfold:
  "fence_before_re = Seq (Grp 1 (NCls [CHR 0x0A])) (Seq (Lit [CHR 0x0A]) (Grp 2 (Lit ''```'')))"
  by (simp add: fence_before_re_def)

lemma fence_after_re_unfold:
  "fence_after_re = Seq (Grp 1 (Lit ''```'')) (Seq (Lit [CHR 0x0A]) (Grp 2 (NCls [CHR 0x0A])))"
  by (simp add: fence_after_re_def)

lemma before_first_match:
  "first_match False fence_before_re (start_state p s) =
     (case s of [] \<Rightarrow> None
      | x # r \<Rightarrow> if x \<noteq> CHR 0x0A \<and> startsWith r (CHR 0x0A # ''```'')
                then Some \<lparr>prev = Some CHR ''`'', rest = drop 4 r,
                           caps = [(2, ''```''), (1, [x])]\<rparr>
                else None)"
  unfolding fence_before_re_unfold
  by (auto simp: first_match_def matches.simps start_state_def step_over_def startsWith_iff
           split: list.splits)

lemma after_first_match:
  "first_match False fence_after_re (start_state p s) =
     (if startsWith s (''```'' @ [CHR 0x0A]) \<and> drop 4 s \<noteq> [] \<and> hd (drop 4 s) \<noteq> CHR 0x0A
      then Some \<lparr>prev = Some (hd (drop 4 s)), rest = drop 5 s,
                 caps = [(2, [hd (drop 4 s)]), (1, ''```'')]\<rparr>
      else None)"
  unfolding fence_after_re_unfold
  by (auto simp: first_match_def matches.simps start_state_def step_over_def startsWith_iff
           split: list.splits)


lemma before_replace:
  "replace_from False fence_before_re [G 1, T [CHR 0x0A, CHR 0x0A], G 2] p s = ins_before s"
proof (induction s arbitrary: p rule: ins_before.induct)
  case 1
  show ?case by (subst replace_from.simps) (simp add: before_first_match)
next
  case (2 x r)
  show ?case
  proof (cases "x \<noteq> CHR 0x0A \<and> startsWith r (CHR 0x0A # ''```'')")
    case True
    with 2(1) have ih: "replace_from False fence_before_re [G 1, T [CHR 0x0A, CHR 0x0A], G 2]
                          (Some CHR ''`'') (drop 4 r) = ins_before (drop 4 r)" by blast
    show ?thesis
      by (subst replace_from.simps) (use True in \<open>simp add: before_first_match ih capture_def del: One_nat_def\<close>)
  next
    case False
    with 2(2) have ih: "replace_from False fence_before_re [G 1, T [CHR 0x0A, CHR 0x0A], G 2]
                          (Some x) r = ins_before r" by blast
    show ?thesis
      by (subst replace_from.simps) (use False in \<open>auto simp add: before_first_match ih simp del: One_nat_def\<close>)
  qed
qed

lemma after_replace:
  "replace_from False fence_after_re [G 1, T [CHR 0x0A, CHR 0x0A], G 2] p s = ins_after s"
proof (induction s arbitrary: p rule: ins_after.induct)
  case 1
  show ?case by (subst replace_from.simps) (simp add: after_first_match)
next
  case (2 x r)
  let ?c = "startsWith (x # r) (''```'' @ [CHR 0x0A]) \<and> drop 3 r \<noteq> []
            \<and> hd (drop 3 r) \<noteq> CHR 0x0A"
  show ?case
  proof (cases ?c)
    case True
    with 2(1) have ih: "replace_from False fence_after_re [G 1, T [CHR 0x0A, CHR 0x0A], G 2]
                          (Some (hd (drop 3 r))) (drop 4 r) = ins_after (drop 4 r)" by blast
    show ?thesis
      by (subst replace_from.simps) (use True in \<open>simp add: after_first_match ih capture_def del: One_nat_def\<close>)
  next
    case False
    with 2(2) have ih: "replace_from False fence_after_re [G 1, T [CHR 0x0A, CHR 0x0A], G 2]
                          (Some x) r = ins_after r" by blast
    show ?thesis
      by (subst replace_from.simps) (use False in \<open>auto simp add: after_first_match ih simp del: One_nat_def\<close>)
  qed
qed

lemma fix_fence_blank_lines_eq: "fix_fence_blank_lines s = ins_after (ins_before s)"
  by (simp add: fix_fence_blank_lines_def replace_g_def before_replace after_replace
        del: One_nat_def)

declare ins_before.simps(2) [simp del]
declare ins_after.simps(2) [simp del]







lemma no_fence_start:
  assumes "CHR ''`'' \<notin> set w" "\<not> startsWith z ''```''" "\<not> startsWith z (CHR 0x0A # ''```'')"
  shows "\<not> startsWith (w @ z) (CHR 0x0A # ''```'')"
proof (cases w)
  case Nil
  with assms show ?thesis by simp
next
  case (Cons a w')
  with assms show ?thesis by (cases w') auto
qed

lemma ins_before_skip:
  assumes "CHR ''`'' \<notin> set w" "\<not> startsWith z ''```''" "\<not> startsWith z (CHR 0x0A # ''```'')"
  shows "ins_before (w @ z) = w @ ins_before z"
  using assms
proof (induction w)
  case Nil
  show ?case by simp
next
  case (Cons a w)
  then have "\<not> startsWith (w @ z) (CHR 0x0A # ''```'')" by (intro no_fence_start) auto
  with Cons show ?case by (simp add: ins_before.simps(2))
qed

lemma ins_before_plain: "CHR ''`'' \<notin> set s \<Longrightarrow> ins_before s = s"
  using ins_before_skip[of s "[]"] by simp




lemma ins_after_skip:
  assumes "CHR ''`'' \<notin> set u"
  shows "ins_after (u @ z) = u @ ins_after z"
  using assms by (induction u) (auto simp: ins_after.simps(2))

lemma ins_after_plain: "CHR ''`'' \<notin> set s \<Longrightarrow> ins_after s = s"
  using ins_after_skip[of s "[]"] by simp







subsection \<open>Blanks at the ends of lines\<close>

lemma trailing_blanks_re_unfold:
  "trailing_blanks_re = Seq (Seq (Cls blank_chars) (Star (Cls blank_chars))) Eol"
  by (simp add: trailing_blanks_re_def Plus_def blank_chars_def)

text \<open>Every state a star over a class can stop in, but the one after the whole run, has
  a member of the class next.\<close>

lemma star_states:
  assumes "set w \<subseteq> set cs" "r = [] \<or> hd r \<notin> set cs"
    and "t \<in> set (matches m (Star (Cls cs)) \<lparr>prev = p, rest = w @ r, caps = c\<rparr>)"
  shows "rest t = r \<or> (rest t \<noteq> [] \<and> hd (rest t) \<in> set cs)"
  using assms
proof (induction w arbitrary: p)
  case Nil
  then have "matches m (Cls cs) \<lparr>prev = p, rest = r, caps = c\<rparr> = []"
    by (cases r) (auto simp: matches.simps(2))
  with Nil(3) show ?case by (simp add: matches.simps(6))
next
  case (Cons x w)
  have 1: "matches m (Cls cs) \<lparr>prev = p, rest = x # w @ r, caps = c\<rparr>
           = [\<lparr>prev = Some x, rest = w @ r, caps = c\<rparr>]"
    using Cons.prems(1) by (simp add: matches.simps(2) step_over_def)
  from Cons.prems(3) have "t \<in> set (matches m (Star (Cls cs)) \<lparr>prev = Some x, rest = w @ r, caps = c\<rparr>)
       \<or> t = \<lparr>prev = p, rest = x # w @ r, caps = c\<rparr>"
    by (subst (asm) matches.simps(6)) (auto simp: 1)
  then show ?case
  proof
    assume "t \<in> set (matches m (Star (Cls cs)) \<lparr>prev = Some x, rest = w @ r, caps = c\<rparr>)"
    then show ?thesis using Cons.IH[of "Some x"] Cons.prems(1,2) by auto
  next
    assume "t = \<lparr>prev = p, rest = x # w @ r, caps = c\<rparr>"
    then show ?thesis using Cons.prems(1) by simp
  qed
qed

lemma blank_not_terminator: "b \<in> set blank_chars \<Longrightarrow> b \<notin> set line_terminators"
  by (auto simp: blank_chars_def line_terminators_def)

lemma strip_no_match_start:
  assumes "s = [] \<or> hd s \<notin> set blank_chars"
  shows "first_match True trailing_blanks_re (start_state p s) = None"
proof -
  have "matches True (Cls blank_chars) (start_state p s) = []"
    using assms by (cases s) (auto simp: matches.simps(2) start_state_def)
  then show ?thesis
    unfolding trailing_blanks_re_unfold by (simp add: first_match_def matches.simps(4))
qed

lemma strip_no_match_run:
  assumes "w \<noteq> []" "set w \<subseteq> set blank_chars" "r \<noteq> []" "hd r \<notin> set blank_chars"
    "hd r \<notin> set line_terminators"
  shows "first_match True trailing_blanks_re (start_state p (w @ r)) = None"
proof -
  obtain x w' where w: "w = x # w'" using assms(1) by (cases w) auto
  have 1: "matches True (Cls blank_chars) (start_state p (w @ r))
           = [\<lparr>prev = Some x, rest = w' @ r, caps = []\<rparr>]"
    using assms(2) w by (simp add: matches.simps(2) start_state_def step_over_def)
  have "matches True Eol t = []"
    if "t \<in> set (matches True (Star (Cls blank_chars)) \<lparr>prev = Some x, rest = w' @ r, caps = []\<rparr>)" for t
  proof -
    from star_states[OF _ _ that] assms(2,4) w
    have "rest t = r \<or> (rest t \<noteq> [] \<and> hd (rest t) \<in> set blank_chars)" by auto
    then have "\<not> at_eol True t"
      using assms(3,5) blank_not_terminator
      by (cases "rest t") (auto simp: at_eol_def)
    then show ?thesis by (simp add: matches.simps(8))
  qed
  then have e: "concat (map (matches True Eol)
      (matches True (Star (Cls blank_chars)) \<lparr>prev = Some x, rest = w' @ r, caps = []\<rparr>)) = []"
    by simp
  show ?thesis
    unfolding trailing_blanks_re_unfold
    by (simp add: first_match_def matches.simps(4) 1 e)
qed

lemma strip_match_run:
  assumes "w \<noteq> []" "set w \<subseteq> set blank_chars" "r = [] \<or> hd r \<in> set line_terminators"
  shows "first_match True trailing_blanks_re (start_state p (w @ r))
         = Some \<lparr>prev = Some (last w), rest = r, caps = []\<rparr>"
proof -
  have nb: "r = [] \<or> hd r \<notin> set blank_chars"
    using assms(3) blank_not_terminator by auto
  have 1: "first_match True (Plus (Cls blank_chars)) \<lparr>prev = p, rest = w @ r, caps = []\<rparr>
           = Some \<lparr>prev = Some (last w), rest = r, caps = []\<rparr>"
    using assms(1,2) nb by (intro fm_Plus_Cls)
  have 2: "first_match True Eol \<lparr>prev = Some (last w), rest = r, caps = []\<rparr>
           = Some \<lparr>prev = Some (last w), rest = r, caps = []\<rparr>"
    using assms(3) by (intro fm_Eol) (cases r; auto simp: at_eol_def)
  show ?thesis
    unfolding trailing_blanks_re_unfold Plus_def[symmetric] start_state_def
    by (rule fm_Seq[OF 1 2])
qed


lemma nb_suffix: "no_blank_before_lf (a @ s) \<Longrightarrow> no_blank_before_lf s"
proof (induction a)
  case Nil
  then show ?case by simp
next
  case (Cons x a)
  then show ?case by (cases "a @ s") auto
qed

lemma nb_Cons_solid:
  "c \<notin> set blank_chars \<Longrightarrow> no_blank_before_lf (c # x) = no_blank_before_lf x"
  by (cases x) auto

lemma nb_Cons_blank:
  "x \<noteq> [] \<Longrightarrow> hd x \<noteq> CHR 0x0A \<Longrightarrow> no_blank_before_lf (c # x) = no_blank_before_lf x"
  by (cases x) auto

lemma nb_blank_next:
  "no_blank_before_lf (c # x) \<Longrightarrow> c \<in> set blank_chars \<Longrightarrow> x \<noteq> [] \<Longrightarrow> hd x \<noteq> CHR 0x0A"
  by (cases x) auto

lemma lf_is_terminator: "CHR 0x0A \<in> set line_terminators"
  by (simp add: line_terminators_def)

lemma lf_not_blank: "CHR 0x0A \<notin> set blank_chars"
  by (simp add: blank_chars_def)

text \<open>Removing the blanks before the line ends leaves no blank before a line feed or
  at the end.\<close>

lemma strip_blanks_nb:
  "no_blank_before_lf (replace_from True trailing_blanks_re [] p s @ [CHR 0x0A])"
proof (induction "length s" arbitrary: s p rule: less_induct)
  case less
  let ?R = "\<lambda>p s. replace_from True trailing_blanks_re [] p s"
  show ?case
  proof (cases s)
    case Nil
    have "?R p [] = []"
      by (intro replace_from_Nil_no_match strip_no_match_start) simp
    then show ?thesis by (simp add: Nil)
  next
    case (Cons c cs)
    show ?thesis
    proof (cases "c \<in> set blank_chars")
      case False
      have "?R p (c # cs) = c # ?R (Some c) cs"
        using False by (intro replace_from_no_match strip_no_match_start) simp
      moreover have "no_blank_before_lf (?R (Some c) cs @ [CHR 0x0A])"
        by (rule less) (simp add: Cons)
      ultimately show ?thesis using False by (simp add: Cons nb_Cons_solid)
    next
      case True
      define w where "w = takeWhile (\<lambda>x. x \<in> set blank_chars) s"
      define r where "r = dropWhile (\<lambda>x. x \<in> set blank_chars) s"
      have s: "s = w @ r" by (simp add: w_def r_def)
      have w: "w \<noteq> []" "set w \<subseteq> set blank_chars"
        using True Cons by (auto simp: w_def dest: set_takeWhileD)
      have r: "r = [] \<or> hd r \<notin> set blank_chars"
        unfolding r_def by (metis (mono_tags, lifting) hd_dropWhile)
      show ?thesis
      proof (cases "r = [] \<or> hd r \<in> set line_terminators")
        case True
        have "?R p (w @ r) = expand [] \<lparr>prev = Some (last w), rest = r, caps = []\<rparr>
                @ ?R (Some (last w)) r"
          using w by (subst replace_from_match[OF strip_match_run[OF w True]]) simp_all
        moreover have "no_blank_before_lf (?R (Some (last w)) r @ [CHR 0x0A])"
          using w by (intro less) (simp add: s)
        ultimately show ?thesis by (simp add: s)
      next
        case False
        then have r': "r \<noteq> []" "hd r \<notin> set blank_chars" "hd r \<notin> set line_terminators"
          using r by auto
        have 1: "?R p (c # cs) = c # ?R (Some c) cs"
          using strip_no_match_run[OF w r', of p] s Cons by (intro replace_from_no_match) simp
        have hd_tail: "?R (Some c) cs \<noteq> [] \<and> hd (?R (Some c) cs) \<noteq> CHR 0x0A"
        proof (cases cs)
          case Nil
          with s Cons w r' show ?thesis
            by (cases w) auto
        next
          case (Cons d ds)
          have wc: "w = c # tl w" using w(1) s \<open>s = c # cs\<close> by (cases w) auto
          then have cs: "cs = tl w @ r" using s \<open>s = c # cs\<close>
            by (metis list.sel(3) tl_append2 w(1))
          have none: "first_match True trailing_blanks_re (start_state (Some c) cs) = None"
          proof (cases "tl w = []")
            case True
            then show ?thesis using r' cs by (intro strip_no_match_start) simp
          next
            case False
            have "set (tl w) \<subseteq> set blank_chars" using w(2) by (metis list.set_sel(2) subsetI subsetD w(1))
            from strip_no_match_run[OF False this r'] show ?thesis by (simp add: cs)
          qed
          have "?R (Some c) (d # ds) = d # ?R (Some d) ds"
            using none Cons by (intro replace_from_no_match) simp
          moreover have "d \<noteq> CHR 0x0A"
          proof (cases "tl w = []")
            case True
            then have "d # ds = r" using cs Cons by simp
            then have "d = hd r" by auto
            then show ?thesis using r'(3) lf_is_terminator by auto
          next
            case False
            then have "d = hd (tl w)" using cs Cons by (cases "tl w") auto
            then have "d \<in> set blank_chars" using False w(2)
              by (metis hd_in_set list.set_sel(2) subsetD w(1))
            then show ?thesis using lf_not_blank by auto
          qed
          ultimately show ?thesis by (simp add: Cons)
        qed
        have "no_blank_before_lf (?R (Some c) cs @ [CHR 0x0A])"
          by (rule less) (simp add: Cons)
        then show ?thesis using hd_tail by (simp add: Cons 1 nb_Cons_blank)
      qed
    qed
  qed
qed

text \<open>A match ends at a suffix of the input.\<close>

lemma drop_is_suffix: "\<exists>a. xs = a @ drop n xs"
  by (metis append_take_drop_id)

lemma matches_suffix:
  "t \<in> set (matches m r s) \<Longrightarrow> \<exists>a. rest s = a @ rest t"
proof (induction m r s arbitrary: t rule: matches.induct)
  case (1 m w s)
  then show ?case
    using drop_is_suffix[of "rest s" "length w"]
    by (auto simp: matches.simps(1) step_over_def split: if_splits)
next
  case (2 m cs s)
  then show ?case
    using drop_is_suffix[of "rest s" 1]
    by (auto simp: matches.simps(2) step_over_def split: list.splits if_splits)
next
  case (3 m cs s)
  then show ?case
    using drop_is_suffix[of "rest s" 1]
    by (auto simp: matches.simps(3) step_over_def split: list.splits if_splits)
next
  case (4 m a b s)
  from 4(3) obtain u where u: "u \<in> set (matches m a s)" "t \<in> set (matches m b u)"
    by (auto simp: matches.simps(4))
  from 4(1)[OF u(1)] obtain x where "rest s = x @ rest u" by blast
  moreover from 4(2)[OF u(1) u(2)] obtain y where "rest u = y @ rest t" by blast
  ultimately show ?case by (intro exI[of _ "x @ y"]) simp
next
  case (5 m a b s)
  then show ?case by (auto simp: matches.simps(5))
next
  case (6 m a s)
  from 6(3) consider "t = s"
    | u where "u \<in> set (matches m a s)" "length (rest u) < length (rest s)"
        "t \<in> set (matches m (Star a) u)"
    by (subst (asm) matches.simps(6)) auto
  then show ?case
  proof cases
    case 1
    then show ?thesis by simp
  next
    case 2
    from 6(1)[OF 2(1)] obtain x where "rest s = x @ rest u" by blast
    moreover from 6(2)[OF _ 2(3)] 2(1,2) obtain y where "rest u = y @ rest t" by auto
    ultimately show ?thesis by (intro exI[of _ "x @ y"]) simp
  qed
next
  case (7 m s)
  then show ?case by (auto simp: matches.simps(7) split: if_splits)
next
  case (8 m s)
  then show ?case by (auto simp: matches.simps(8) split: if_splits)
next
  case (9 m s)
  then show ?case by (auto simp: matches.simps(9) split: if_splits)
next
  case (10 m n a s)
  from 10(2) obtain u where u: "u \<in> set (matches m a s)" "rest t = rest u"
    by (auto simp: matches.simps(10))
  with 10(1)[OF u(1)] show ?case by simp
qed

lemma many_newlines_re_unfold:
  "many_newlines_re = Seq (Lit [CHR 0x0A]) (Seq (Lit [CHR 0x0A])
                        (Seq (Lit [CHR 0x0A]) (Star (Lit [CHR 0x0A]))))"
  by (simp add: many_newlines_re_def numeral_3_eq_3)

lemma collapse_no_match:
  assumes "s = [] \<or> hd s \<noteq> CHR 0x0A"
  shows "first_match False many_newlines_re (start_state p s) = None"
proof -
  have "matches False (Lit [CHR 0x0A]) (start_state p s) = []"
    using assms by (cases s) (auto simp: matches.simps(1) start_state_def)
  then show ?thesis
    unfolding many_newlines_re_unfold by (simp add: first_match_def matches.simps(4))
qed

lemma collapse_match_shorter:
  assumes "first_match False many_newlines_re (start_state p s) = Some t"
  shows "length (rest t) < length s \<and> (\<exists>a. s = a @ rest t)"
proof -
  let ?X = "Seq (Lit [CHR 0x0A]) (Seq (Lit [CHR 0x0A]) (Star (Lit [CHR 0x0A])))"
  from assms have t: "t \<in> set (matches False many_newlines_re (start_state p s))"
    by (auto simp: first_match_def split: list.splits)
  then obtain u where u: "u \<in> set (matches False (Lit [CHR 0x0A]) (start_state p s))"
      "t \<in> set (matches False ?X u)"
    unfolding many_newlines_re_unfold by (auto simp: matches.simps(4))
  from u(1) have "length (rest u) < length s"
    by (cases s) (auto simp: matches.simps(1) start_state_def step_over_def split: if_splits)
  moreover from matches_suffix[OF u(2)] have "length (rest t) \<le> length (rest u)" by auto
  moreover from matches_suffix[OF t] have "\<exists>a. s = a @ rest t" by (simp add: start_state_def)
  ultimately show ?thesis by simp
qed

lemma collapse_nb:
  "no_blank_before_lf (s @ [CHR 0x0A])
   \<Longrightarrow> no_blank_before_lf
         (replace_from False many_newlines_re [T [CHR 0x0A, CHR 0x0A]] p s @ [CHR 0x0A])"
proof (induction "length s" arbitrary: s p rule: less_induct)
  case less
  let ?C = "\<lambda>p s. replace_from False many_newlines_re [T [CHR 0x0A, CHR 0x0A]] p s"
  show ?case
  proof (cases "first_match False many_newlines_re (start_state p s)")
    case (Some t)
    from collapse_match_shorter[OF Some] obtain a where
      t: "length (rest t) < length s" "s = a @ rest t" by blast
    have "no_blank_before_lf (rest t @ [CHR 0x0A])"
      using less.prems t(2) nb_suffix[of a "rest t @ [CHR 0x0A]"] by simp
    then have "no_blank_before_lf (?C (prev t) (rest t) @ [CHR 0x0A])"
      using t(1) by (intro less)
    moreover have "?C p s = [CHR 0x0A, CHR 0x0A] @ ?C (prev t) (rest t)"
      by (subst replace_from_match[OF Some t(1)]) simp
    ultimately show ?thesis by (simp add: nb_Cons_solid lf_not_blank)
  next
    case None
    show ?thesis
    proof (cases s)
      case Nil
      then show ?thesis using None by (simp add: replace_from_Nil_no_match)
    next
      case (Cons c cs)
      have 1: "?C p (c # cs) = c # ?C (Some c) cs"
        using None Cons by (intro replace_from_no_match) simp
      have tailnb: "no_blank_before_lf (cs @ [CHR 0x0A])"
        using less.prems Cons nb_suffix[of "[c]" "cs @ [CHR 0x0A]"] by simp
      have ih: "no_blank_before_lf (?C (Some c) cs @ [CHR 0x0A])"
        using tailnb Cons by (intro less) simp_all
      show ?thesis
      proof (cases "c \<in> set blank_chars")
        case False
        then show ?thesis using ih by (simp add: Cons 1 nb_Cons_solid)
      next
        case True
        from nb_blank_next[of c "cs @ [CHR 0x0A]"] less.prems True Cons
        have "hd (cs @ [CHR 0x0A]) \<noteq> CHR 0x0A" by simp
        then obtain d ds where cs: "cs = d # ds" "d \<noteq> CHR 0x0A" by (cases cs) auto
        have "?C (Some c) (d # ds) = d # ?C (Some d) ds"
          using cs(2) by (intro replace_from_no_match collapse_no_match) simp
        then have "?C (Some c) cs \<noteq> [] \<and> hd (?C (Some c) cs) \<noteq> CHR 0x0A"
          using cs by simp
        then show ?thesis using ih by (simp add: Cons 1 nb_Cons_blank)
      qed
    qed
  qed
qed

lemma trim_decomp: "\<exists>a b. s = a @ trim s @ b"
proof -
  let ?x = "dropWhile is_ws s"
  have "s = takeWhile is_ws s @ ?x" by simp
  moreover have "?x = rev (dropWhile is_ws (rev ?x)) @ rev (takeWhile is_ws (rev ?x))"
    by (metis rev_append rev_rev_ident takeWhile_dropWhile_id)
  ultimately have "s = takeWhile is_ws s @ trim s @ rev (takeWhile is_ws (rev ?x))"
    by (simp add: trim_def)
  then show ?thesis by blast
qed

lemma nb_prefix:
  "no_blank_before_lf (t @ u) \<Longrightarrow> t = [] \<or> last t \<notin> set blank_chars
   \<Longrightarrow> no_blank_before_lf (t @ [CHR 0x0A])"
proof (induction t rule: no_blank_before_lf.induct)
  case 1
  then show ?case by simp
next
  case (2 c)
  then show ?case by simp
next
  case (3 c d r)
  then show ?case by auto
qed

lemma blank_is_ws: "c \<in> set blank_chars \<Longrightarrow> is_ws c"
  by (auto simp: blank_chars_def is_ws_def ws_chars_def)

lemma trim_nb:
  assumes "no_blank_before_lf (s @ [CHR 0x0A])"
  shows "no_blank_before_lf (trim s @ [CHR 0x0A])"
proof -
  obtain a b where ab: "s = a @ trim s @ b" using trim_decomp by blast
  have "no_blank_before_lf (a @ (trim s @ (b @ [CHR 0x0A])))"
    using assms ab by (metis append.assoc)
  then have "no_blank_before_lf (trim s @ (b @ [CHR 0x0A]))" by (rule nb_suffix)
  moreover have "trim s = [] \<or> last (trim s) \<notin> set blank_chars"
    using trim_is_trimmed[of s] blank_is_ws by (auto simp: trimmed_def)
  ultimately show ?thesis by (rule nb_prefix)
qed

lemma has_trailing_blank_iff: "has_trailing_blank l = (l \<noteq> [] \<and> last l \<in> set blank_chars)"
  by (auto simp: has_trailing_blank_def blank_chars_def)

lemma nb_before_lf:
  "no_blank_before_lf (a @ CHR 0x0A # b) \<Longrightarrow> a \<noteq> [] \<Longrightarrow> last a \<notin> set blank_chars"
proof (induction a rule: no_blank_before_lf.induct)
  case 1
  then show ?case by simp
next
  case (2 c)
  then show ?case by simp
next
  case (3 c d r)
  then show ?case by auto
qed

lemma split_lines_nb:
  "no_blank_before_lf (cur @ s) \<Longrightarrow> cur @ s = [] \<or> last (cur @ s) \<notin> set blank_chars
   \<Longrightarrow> list_all (\<lambda>l. \<not> has_trailing_blank l) (split_on (CHR 0x0A) cur s)"
proof (induction s arbitrary: cur)
  case Nil
  then show ?case by (auto simp: has_trailing_blank_iff)
next
  case (Cons c cs)
  show ?case
  proof (cases "c = CHR 0x0A")
    case True
    have 1: "\<not> has_trailing_blank cur"
      using nb_before_lf[of cur cs] Cons.prems(1) True by (auto simp: has_trailing_blank_iff)
    have "no_blank_before_lf cs"
      using nb_suffix[of "cur @ [c]" cs] Cons.prems(1) by simp
    moreover have "cs = [] \<or> last cs \<notin> set blank_chars"
      using Cons.prems(2) by (cases "cs = []") auto
    ultimately have "list_all (\<lambda>l. \<not> has_trailing_blank l) (split_on (CHR 0x0A) [] cs)"
      using Cons.IH[of "[]"] by simp
    with 1 True show ?thesis by simp
  next
    case False
    have "list_all (\<lambda>l. \<not> has_trailing_blank l) (split_on (CHR 0x0A) (cur @ [c]) cs)"
      using Cons.prems by (intro Cons.IH) simp_all
    with False show ?thesis by simp
  qed
qed

lemma trimmed_ends_with_one_line_break:
  assumes "trimmed t"
  shows "ends_with_one_line_break (t @ [CHR 0x0A])"
proof (cases "t = []")
  case True
  then show ?thesis by (simp add: ends_with_one_line_break_def)
next
  case False
  then obtain d ds where r: "rev t = d # ds" by (cases "rev t") auto
  then have "d = last t" using False by (metis last_rev list.sel(1) rev_rev_ident hd_rev)
  with assms False have "\<not> is_ws d" by (simp add: trimmed_def)
  then show ?thesis by (simp add: ends_with_one_line_break_def r)
qed

lemma turndown_finish_trailing_form: "trailing_form (turndown_finish md)"
proof -
  let ?a = "replace_g True trailing_blanks_re [] md"
  let ?b = "replace_g False many_newlines_re [T [CHR 0x0A, CHR 0x0A]] ?a"
  have "no_blank_before_lf (?a @ [CHR 0x0A])"
    unfolding replace_g_def by (rule strip_blanks_nb)
  then have "no_blank_before_lf (?b @ [CHR 0x0A])"
    unfolding replace_g_def[of False] by (rule collapse_nb)
  then have nb: "no_blank_before_lf (trim ?b @ [CHR 0x0A])" by (rule trim_nb)
  have "list_all (\<lambda>l. \<not> has_trailing_blank l) (split_on (CHR 0x0A) [] (trim ?b @ [CHR 0x0A]))"
    using split_lines_nb[of "[]" "trim ?b @ [CHR 0x0A]"] nb lf_not_blank by simp
  moreover have "ends_with_one_line_break (trim ?b @ [CHR 0x0A])"
    by (intro trimmed_ends_with_one_line_break trim_is_trimmed)
  ultimately show ?thesis
    by (simp add: trailing_form_def no_trailing_blanks_def turndown_finish_def Let_def)
qed

subsection \<open>Ordered lists through all the steps\<close>

lemma header_period_re_unfold:
  "header_period_re = Seq Bol (Seq (Grp 1 (Seq (Rep 1 6 (Lit ''#''))
       (Seq (Plus (Cls ws_chars)) (Plus (Cls digit_chars)))))
     (Lit [CHR 0x5C, CHR ''.'', CHR '' '']))"
  by (simp add: header_period_re_def ws_def digit_def)

lemma indent2_re_unfold:
  "indent2_re = Seq Bol (Seq (Grp 1 (Rep 2 2 (Lit '' ''))) (Grp 2 list_marker))"
  by (simp add: indent2_re_def)

lemma indent4_re_unfold:
  "indent4_re = Seq Bol (Seq (Grp 1 (Rep 4 4 (Lit '' ''))) (Grp 2 list_marker))"
  by (simp add: indent4_re_def)

lemma digit_facts:
  assumes "c \<in> set digit_chars"
  shows "c \<notin> set ws_chars" "c \<noteq> CHR ''*''" "c \<noteq> CHR '' ''" "c \<noteq> CHR ''#''"
  using assms by (auto simp: digit_chars_def ws_chars_def)

lemma emphasis_dead_on_digit:
  assumes "c \<in> set digit_chars"
  shows "first_match True emphasis_re (start_state p (c # cs)) = None"
  unfolding emphasis_re_unfold using digit_facts[OF assms]
  by (simp add: first_match_def matches.simps start_state_def step_over_def)

lemma indent2_dead_on_digit:
  assumes "c \<in> set digit_chars"
  shows "first_match True indent2_re (start_state p (c # cs)) = None"
  unfolding indent2_re_unfold using digit_facts[OF assms]
  by (simp add: first_match_def matches.simps start_state_def step_over_def numeral_2_eq_2)

lemma indent4_dead_on_digit:
  assumes "c \<in> set digit_chars"
  shows "first_match True indent4_re (start_state p (c # cs)) = None"
  unfolding indent4_re_unfold using digit_facts[OF assms]
  by (simp add: first_match_def matches.simps start_state_def step_over_def numeral_eq_Suc)

lemma header_period_dead_on_digit:
  assumes "c \<in> set digit_chars"
  shows "first_match True header_period_re (start_state p (c # cs)) = None"
  unfolding header_period_re_unfold using digit_facts[OF assms]
  by (simp add: first_match_def matches.simps start_state_def step_over_def numeral_eq_Suc
        Opt_def)

text \<open>An expression anchored at the line start that matches at no line start leaves the
  lines as they are.\<close>

lemma anchored_lines_id:
  assumes "\<And>l. l \<in> set (l0 # ls) \<Longrightarrow> l \<noteq> [] \<and> set l \<inter> set line_terminators = {}
              \<and> (\<forall>p cs. first_match True (Seq Bol x) (start_state p (hd l # cs)) = None)"
  shows "replace_from True (Seq Bol x) tp p (join_lines (l0 # ls)) = join_lines (l0 # ls)"
  using assms
proof (induction ls arbitrary: p l0)
  case Nil
  from Nil[of l0] obtain c l' where l0: "l0 = c # l'" by (cases l0) auto
  from Nil[of l0] l0 have c: "c \<notin> set line_terminators" "set l' \<inter> set line_terminators = {}"
    and dead: "first_match True (Seq Bol x) (start_state p (c # l')) = None" by auto
  have "replace_from True (Seq Bol x) tp p (c # l') = c # replace_from True (Seq Bol x) tp (Some c) (l' @ [])"
    using dead by (simp add: replace_from_no_match)
  also have "replace_from True (Seq Bol x) tp (Some c) (l' @ [])
             = l' @ replace_from True (Seq Bol x) tp (Some (last (c # l'))) []"
    using c by (rule anchored_skip)
  also have "replace_from True (Seq Bol x) tp (Some (last (c # l'))) [] = []"
  proof -
    have "last (c # l') \<notin> set line_terminators"
      using c last_in_set[of l'] by (cases "l' = []") (auto simp: disjoint_iff)
    then show ?thesis by (intro replace_from_Nil_no_match anchored_no_match)
  qed
  finally show ?case by (simp add: l0)
next
  case (Cons l1 ls)
  let ?tail = "CHR 0x0A # join_lines (l1 # ls)"
  from Cons.prems[of l0] obtain c l' where l0: "l0 = c # l'" by (cases l0) auto
  from Cons.prems[of l0] l0 have c: "c \<notin> set line_terminators" "set l' \<inter> set line_terminators = {}"
    and dead: "first_match True (Seq Bol x) (start_state p (c # (l' @ ?tail))) = None" by auto
  have lastc: "last (c # l') \<notin> set line_terminators"
    using c last_in_set[of l'] by (cases "l' = []") (auto simp: disjoint_iff)
  have "replace_from True (Seq Bol x) tp p (c # (l' @ ?tail))
        = c # replace_from True (Seq Bol x) tp (Some c) (l' @ ?tail)"
    using dead by (rule replace_from_no_match)
  also have "replace_from True (Seq Bol x) tp (Some c) (l' @ ?tail)
             = l' @ replace_from True (Seq Bol x) tp (Some (last (c # l'))) ?tail"
    using c by (rule anchored_skip)
  also have "replace_from True (Seq Bol x) tp (Some (last (c # l'))) ?tail
             = CHR 0x0A # replace_from True (Seq Bol x) tp (Some CHR 0x0A) (join_lines (l1 # ls))"
    using lastc by (intro replace_from_no_match anchored_no_match)
  also have "replace_from True (Seq Bol x) tp (Some CHR 0x0A) (join_lines (l1 # ls))
             = join_lines (l1 # ls)"
    using Cons.prems by (intro Cons.IH) auto
  finally show ?case by (simp add: l0)
qed

lemma join_lines_set:
  "set (join_lines ls) \<subseteq> (\<Union>l\<in>set ls. set l) \<union> {CHR 0x0A}"
  by (induction ls rule: join_lines.induct) auto

lemma join_lines_hd:
  "l \<noteq> [] \<Longrightarrow> hd (join_lines (l # ls)) = hd l"
  by (cases ls) auto

lemma join_lines_last_nonempty:
  "ls \<noteq> [] \<Longrightarrow> last ls \<noteq> [] \<Longrightarrow> join_lines ls \<noteq> []"
  by (induction ls rule: join_lines.induct) auto

lemma join_lines_last:
  "ls \<noteq> [] \<Longrightarrow> last ls \<noteq> [] \<Longrightarrow> last (join_lines ls) = last (last ls)"
proof (induction ls rule: join_lines.induct)
  case 1
  then show ?case by simp
next
  case (2 l)
  then show ?case by simp
next
  case (3 l v va)
  then have "join_lines (v # va) \<noteq> []" by (intro join_lines_last_nonempty) auto
  with 3 show ?case by simp
qed

lemma digit_lines_id:
  assumes "\<And>l. l \<in> set (l0 # ls) \<Longrightarrow> l \<noteq> [] \<and> set l \<inter> set line_terminators = {}
              \<and> hd l \<in> set digit_chars"
    and "\<And>c p cs. c \<in> set digit_chars
              \<Longrightarrow> first_match True (Seq Bol x) (start_state p (c # cs)) = None"
  shows "replace_from True (Seq Bol x) tp p (join_lines (l0 # ls)) = join_lines (l0 # ls)"
proof (rule anchored_lines_id)
  fix l assume "l \<in> set (l0 # ls)"
  from assms(1)[OF this] assms(2)[of "hd l"]
  show "l \<noteq> [] \<and> set l \<inter> set line_terminators = {}
        \<and> (\<forall>p cs. first_match True (Seq Bol x) (start_state p (hd l # cs)) = None)"
    by blast
qed

lemma join_lines_nonempty: "l \<noteq> [] \<Longrightarrow> join_lines (l # ls) \<noteq> []"
  by (cases ls) auto

lemma plain_item_lines:
  assumes "plain_item it"
  shows "item_line it \<noteq> []" "hd (item_line it) \<in> set digit_chars"
    "set (item_line it) \<inter> set line_terminators = {}"
    "renumbered_line it \<noteq> []" "hd (renumbered_line it) \<in> set digit_chars"
    "set (renumbered_line it) \<inter> set line_terminators = {}"
    "CHR ''`'' \<notin> set (renumbered_line it)"
    "\<not> is_ws (last (renumbered_line it))"
    "\<not> is_ws (hd (renumbered_line it))"
proof -
  from assms have i: "indent it = []" and n: "number it \<noteq> []" "set (number it) \<subseteq> set digit_chars"
    and s: "sep it \<notin> set line_terminators"
    and b: "body it \<noteq> []" "\<not> is_ws (last (body it))" "set (body it) \<inter> set line_terminators = {}"
      "CHR ''`'' \<notin> set (body it)"
    by (auto simp: plain_item_def valid_item_def list_all_iff)
  have dl: "set digit_chars \<inter> set line_terminators = {}"
    by (auto simp: digit_chars_def line_terminators_def)
  show "item_line it \<noteq> []" by (simp add: item_line_def)
  show "hd (item_line it) \<in> set digit_chars"
    using n i by (cases "number it") (auto simp: item_line_def)
  show "set (item_line it) \<inter> set line_terminators = {}"
    using n s b i dl by (auto simp: item_line_def line_terminators_def)
  show "renumbered_line it \<noteq> []" by (simp add: renumbered_line_def)
  show "hd (renumbered_line it) \<in> set digit_chars"
    using i by (simp add: renumbered_line_def digit_chars_def)
  show "set (renumbered_line it) \<inter> set line_terminators = {}"
    using b i by (auto simp: renumbered_line_def line_terminators_def)
  show "CHR ''`'' \<notin> set (renumbered_line it)"
    using b i by (auto simp: renumbered_line_def)
  show "\<not> is_ws (last (renumbered_line it))"
    using b i by (simp add: renumbered_line_def)
  show "\<not> is_ws (hd (renumbered_line it))"
    using i by (simp add: renumbered_line_def is_ws_def ws_chars_def)
qed

lemma postProcess_plain_items:
  assumes "items \<noteq> []" "list_all plain_item items"
  shows "postProcessMarkdown (join_lines (map item_line items))
         = join_lines (map renumbered_line items) @ [CHR 0x0A]"
proof -
  obtain it its where items: "items = it # its" using assms(1) by (cases items) auto
  let ?src = "join_lines (map item_line items)"
  let ?dst = "join_lines (map renumbered_line items)"
  have pl: "plain_item i" if "i \<in> set items" for i
    using assms(2) that by (simp add: list_all_iff)
  have src_ok: "l \<noteq> [] \<and> set l \<inter> set line_terminators = {} \<and> hd l \<in> set digit_chars"
    if "l \<in> set (item_line it # map item_line its)" for l
  proof -
    from that obtain i where "i \<in> set items" "l = item_line i" by (auto simp: items)
    with plain_item_lines(1-3)[OF pl] show ?thesis by simp
  qed
  have dst_ok: "l \<noteq> [] \<and> set l \<inter> set line_terminators = {} \<and> hd l \<in> set digit_chars"
    if "l \<in> set (renumbered_line it # map renumbered_line its)" for l
  proof -
    from that obtain i where "i \<in> set items" "l = renumbered_line i" by (auto simp: items)
    with plain_item_lines(4-6)[OF pl] show ?thesis by simp
  qed
  have 1: "fix_emphasis_heading ?src = ?src"
    unfolding fix_emphasis_heading_def replace_g_def emphasis_re_unfold items list.map
    by (rule digit_lines_id[OF src_ok emphasis_dead_on_digit[unfolded emphasis_re_unfold]])
  have 2: "fix_ordered_prefix ?src = ?dst"
    unfolding fix_ordered_prefix_def replace_g_def
    using assms(2) by (intro renumber_lines) (auto simp: list_all_iff plain_item_def)
  have 3: "replace_g True indent2_re [T ''    '', G 2] ?dst = ?dst"
    unfolding replace_g_def indent2_re_unfold items list.map
    by (rule digit_lines_id[OF dst_ok indent2_dead_on_digit[unfolded indent2_re_unfold]])
  have 4: "replace_g True indent4_re [T ''        '', G 2] ?dst = ?dst"
    unfolding replace_g_def indent4_re_unfold items list.map
    by (rule digit_lines_id[OF dst_ok indent4_dead_on_digit[unfolded indent4_re_unfold]])
  have 5: "fix_escaped_periods ?dst = ?dst"
    unfolding fix_escaped_periods_def replace_g_def header_period_re_unfold items list.map
    by (rule digit_lines_id[OF dst_ok header_period_dead_on_digit[unfolded header_period_re_unfold]])
  have "CHR ''`'' \<notin> set l" if "l \<in> set (map renumbered_line items)" for l
    using that plain_item_lines(7)[OF pl] by auto
  then have nobt: "CHR ''`'' \<notin> set ?dst"
    using join_lines_set[of "map renumbered_line items"] by auto
  have 6: "fix_fence_blank_lines ?dst = ?dst"
    by (simp add: fix_fence_blank_lines_eq ins_before_plain[OF nobt] ins_after_plain[OF nobt])
  have ne: "?dst \<noteq> []"
    using plain_item_lines(4)[OF pl[of it]] items by (simp add: join_lines_nonempty)
  have hd: "\<not> is_ws (hd ?dst)"
    using plain_item_lines(4,9)[OF pl[of it]] items by (simp add: join_lines_hd)
  have "last (map renumbered_line items) = renumbered_line (last items)"
    using assms(1) by (simp add: last_map)
  then have last: "\<not> is_ws (last ?dst)"
    using join_lines_last[of "map renumbered_line items"] assms(1)
      plain_item_lines(4,8)[OF pl[of "last items"]] by simp
  have 7: "trim ?dst = ?dst"
    using trim_append_ws[OF ne hd last, of "[]"] by simp
  have "lint_rewrites ?src = ?dst"
    unfolding lint_rewrites_def fix_indentation_def 1 2 3 4 5 6 ..
  then show ?thesis
    by (simp add: postProcessMarkdown_def single_trailing_newline_def 7)
qed

subsection \<open>Runs of white space\<close>

lemma lf_ws: "CHR 0x0A \<in> set ws_chars" by (simp add: ws_chars_def)

lemma terminator_ws: "c \<in> set line_terminators \<Longrightarrow> c \<in> set ws_chars"
  by (auto simp: line_terminators_def ws_chars_def)

lemma star_cons:
  assumes "x \<in> set cs"
  shows "matches m (Star (Cls cs)) \<lparr>prev = p, rest = x # v, caps = c\<rparr>
         = matches m (Star (Cls cs)) \<lparr>prev = Some x, rest = v, caps = c\<rparr>
           @ [\<lparr>prev = p, rest = x # v, caps = c\<rparr>]"
proof -
  have "matches m (Cls cs) \<lparr>prev = p, rest = x # v, caps = c\<rparr>
        = [\<lparr>prev = Some x, rest = v, caps = c\<rparr>]"
    using assms by (simp add: matches.simps(2) step_over_def)
  then show ?thesis by (subst matches.simps(6)) simp
qed

lemma star_single:
  assumes "v = [] \<or> hd v \<notin> set cs"
  shows "matches m (Star (Cls cs)) \<lparr>prev = p, rest = v, caps = c\<rparr>
         = [\<lparr>prev = p, rest = v, caps = c\<rparr>]"
proof -
  have "matches m (Cls cs) \<lparr>prev = p, rest = v, caps = c\<rparr> = []"
    using assms by (cases v) (auto simp: matches.simps(2))
  then show ?thesis by (subst matches.simps(6)) simp
qed

lemma star_run_two:
  assumes "set w \<subseteq> set cs" "x \<in> set cs" "v = [] \<or> hd v \<notin> set cs"
  shows "\<exists>ts. matches m (Star (Cls cs)) \<lparr>prev = p, rest = w @ x # v, caps = c\<rparr>
         = \<lparr>prev = Some x, rest = v, caps = c\<rparr>
           # \<lparr>prev = (if w = [] then p else Some (last w)), rest = x # v, caps = c\<rparr> # ts"
  using assms
proof (induction w arbitrary: p)
  case Nil
  then show ?case by (simp add: star_cons star_single)
next
  case (Cons a w)
  from Cons.IH[of "Some a"] Cons.prems obtain ts where
    "matches m (Star (Cls cs)) \<lparr>prev = Some a, rest = w @ x # v, caps = c\<rparr>
         = \<lparr>prev = Some x, rest = v, caps = c\<rparr>
           # \<lparr>prev = (if w = [] then Some a else Some (last w)), rest = x # v, caps = c\<rparr> # ts"
    by auto
  then show ?case using Cons.prems by (simp add: star_cons)
qed

lemma fm_trailing_ws_more:
  assumes "set w \<subseteq> set ws_chars" "c \<notin> set ws_chars"
  shows "first_match True (Seq (Grp n (Star (Cls ws_chars))) Eol)
           \<lparr>prev = q, rest = w @ CHR 0x0A # c # r, caps = cs\<rparr>
         = Some \<lparr>prev = (if w = [] then q else Some (last w)), rest = CHR 0x0A # c # r,
                  caps = (n, w) # cs\<rparr>"
proof -
  from star_run_two[OF assms(1) lf_ws, of "c # r" True q cs] assms(2) obtain ts where
    1: "matches True (Star (Cls ws_chars)) \<lparr>prev = q, rest = w @ CHR 0x0A # c # r, caps = cs\<rparr>
         = \<lparr>prev = Some CHR 0x0A, rest = c # r, caps = cs\<rparr>
           # \<lparr>prev = (if w = [] then q else Some (last w)), rest = CHR 0x0A # c # r, caps = cs\<rparr> # ts"
    by auto
  have c: "c \<notin> set line_terminators" using assms(2) terminator_ws by blast
  show ?thesis
    using c by (simp add: first_match_def matches.simps(4,8,10) 1 at_eol_def line_terminators_def)
qed

lemma fm_trailing_ws_end:
  assumes "set w \<subseteq> set ws_chars"
  shows "first_match True (Seq (Grp n (Star (Cls ws_chars))) Eol)
           \<lparr>prev = q, rest = w, caps = cs\<rparr>
         = Some \<lparr>prev = (if w = [] then q else Some (last w)), rest = [], caps = (n, w) # cs\<rparr>"
proof -
  have "first_match True (Star (Cls ws_chars)) \<lparr>prev = q, rest = w @ [], caps = cs\<rparr>
        = Some \<lparr>prev = (if w = [] then q else Some (last w)), rest = [], caps = cs\<rparr>"
    using assms by (intro fm_Star_Cls) auto
  from fm_Grp[OF this, of n]
  have 1: "first_match True (Grp n (Star (Cls ws_chars))) \<lparr>prev = q, rest = w, caps = cs\<rparr>
        = Some \<lparr>prev = (if w = [] then q else Some (last w)), rest = [], caps = (n, w) # cs\<rparr>"
    by simp
  have 2: "first_match True Eol \<lparr>prev = (if w = [] then q else Some (last w)), rest = [], caps = (n, w) # cs\<rparr>
        = Some \<lparr>prev = (if w = [] then q else Some (last w)), rest = [], caps = (n, w) # cs\<rparr>"
    by (intro fm_Eol) (simp add: at_eol_def)
  show ?thesis by (rule fm_Seq[OF 1 2])
qed

lemma ws_run_dead:
  assumes "set w \<subseteq> set ws_chars" "v = [] \<or> hd v \<notin> set ws_chars"
    and "\<And>t. rest t = v \<or> (rest t \<noteq> [] \<and> hd (rest t) \<in> set ws_chars) \<Longrightarrow> matches m y t = []"
  shows "first_match m (Seq Bol (Seq (Grp n (Star (Cls ws_chars))) y)) (start_state p (w @ v)) = None"
proof -
  let ?s = "\<lparr>prev = p, rest = w @ v, caps = []\<rparr>"
  have "matches m y u = []" if "u \<in> set (matches m (Grp n (Star (Cls ws_chars))) ?s)" for u
  proof -
    from that obtain t where t: "t \<in> set (matches m (Star (Cls ws_chars)) ?s)" "rest u = rest t"
      by (auto simp: matches.simps(10))
    from star_states[OF assms(1,2) t(1)] t(2) show ?thesis by (intro assms(3)) simp
  qed
  then have e: "concat (map (matches m y) (matches m (Grp n (Star (Cls ws_chars))) ?s)) = []"
    by simp
  have z: "matches m (Seq (Grp n (Star (Cls ws_chars))) y) ?s = []"
    unfolding matches.simps(4) e ..
  have "matches m (Seq Bol (Seq (Grp n (Star (Cls ws_chars))) y)) ?s
        = concat (map (matches m (Seq (Grp n (Star (Cls ws_chars))) y)) (matches m Bol ?s))"
    by (rule matches.simps(4))
  also have "\<dots> = []" by (simp add: matches.simps(7) z)
  finally show ?thesis by (simp add: first_match_def start_state_def)
qed

subsection \<open>Copying what no match starts in\<close>

lemma copy_lfs:
  assumes "\<And>q i. 0 < i \<Longrightarrow> i \<le> n
             \<Longrightarrow> first_match m r (start_state q (replicate i (CHR 0x0A) @ R)) = None"
  shows "replace_from m r tp p (replicate n (CHR 0x0A) @ R)
         = replicate n (CHR 0x0A)
           @ replace_from m r tp (if n = 0 then p else Some (CHR 0x0A)) R"
  using assms
proof (induction n arbitrary: p)
  case 0
  show ?case by simp
next
  case (Suc n)
  have "first_match m r (start_state p (CHR 0x0A # replicate n (CHR 0x0A) @ R)) = None"
    using Suc.prems[of "Suc n" p] by simp
  then have 1: "replace_from m r tp p (CHR 0x0A # replicate n (CHR 0x0A) @ R)
        = CHR 0x0A # replace_from m r tp (Some (CHR 0x0A)) (replicate n (CHR 0x0A) @ R)"
    by (rule replace_from_no_match)
  have 2: "replace_from m r tp (Some (CHR 0x0A)) (replicate n (CHR 0x0A) @ R)
        = replicate n (CHR 0x0A)
          @ replace_from m r tp (if n = 0 then Some (CHR 0x0A) else Some (CHR 0x0A)) R"
    using Suc.prems by (intro Suc.IH) auto
  show ?case using 1 2 by simp
qed

lemma copy_line:
  assumes "first_match True (Seq Bol x) (start_state p (l @ R)) = None"
    and "l \<noteq> []" "set l \<inter> set line_terminators = {}"
  shows "replace_from True (Seq Bol x) tp p (l @ R)
         = l @ replace_from True (Seq Bol x) tp (Some (last l)) R"
proof -
  obtain c l' where l: "l = c # l'" using assms(2) by (cases l) auto
  have c: "c \<notin> set line_terminators" "set l' \<inter> set line_terminators = {}"
    using assms(3) l by auto
  have "replace_from True (Seq Bol x) tp p (c # (l' @ R))
        = c # replace_from True (Seq Bol x) tp (Some c) (l' @ R)"
    using assms(1) l by (intro replace_from_no_match) simp
  also have "replace_from True (Seq Bol x) tp (Some c) (l' @ R)
        = l' @ replace_from True (Seq Bol x) tp (Some (last (c # l'))) R"
    using c by (rule anchored_skip)
  finally show ?thesis by (simp add: l)
qed

lemma copy_block:
  assumes "\<And>q i. i \<le> n
             \<Longrightarrow> first_match True (Seq Bol x) (start_state q (replicate i (CHR 0x0A) @ l @ R)) = None"
    and "l \<noteq> []" "set l \<inter> set line_terminators = {}"
  shows "replace_from True (Seq Bol x) tp p (replicate n (CHR 0x0A) @ l @ R)
         = replicate n (CHR 0x0A) @ l @ replace_from True (Seq Bol x) tp (Some (last l)) R"
proof -
  let ?q = "if n = 0 then p else Some (CHR 0x0A)"
  have 1: "replace_from True (Seq Bol x) tp p (replicate n (CHR 0x0A) @ (l @ R))
        = replicate n (CHR 0x0A) @ replace_from True (Seq Bol x) tp ?q (l @ R)"
    using assms(1) by (intro copy_lfs) simp
  have "first_match True (Seq Bol x) (start_state ?q (l @ R)) = None"
    using assms(1)[of 0 ?q] by simp
  from copy_line[OF this assms(2,3)] 1 show ?thesis by simp
qed

lemma copy_tail:
  assumes "\<And>q i. i \<le> j
             \<Longrightarrow> first_match m r (start_state q (replicate i (CHR 0x0A))) = None"
  shows "replace_from m r tp p (replicate j (CHR 0x0A)) = replicate j (CHR 0x0A)"
proof -
  have "replace_from m r tp p (replicate j (CHR 0x0A) @ [])
        = replicate j (CHR 0x0A) @ replace_from m r tp (if j = 0 then p else Some (CHR 0x0A)) []"
    using assms by (intro copy_lfs) simp
  moreover have "replace_from m r tp (if j = 0 then p else Some (CHR 0x0A)) [] = []"
    using assms[of 0] by (intro replace_from_Nil_no_match) simp
  ultimately show ?thesis by simp
qed

subsection \<open>Where steps 1 and 2 find nothing\<close>

lemma lfs_ws: "set (replicate i (CHR 0x0A)) \<subseteq> set ws_chars"
  using lf_ws by auto

lemma emphasis_dead:
  assumes "set w \<subseteq> set ws_chars" "v = [] \<or> (hd v \<notin> set ws_chars \<and> hd v \<noteq> CHR ''*'')"
  shows "first_match True emphasis_re (start_state p (w @ v)) = None"
  unfolding emphasis_re_unfold
proof (rule ws_run_dead[OF assms(1)])
  show "v = [] \<or> hd v \<notin> set ws_chars" using assms(2) by blast
next
  fix t :: mstate
  assume "rest t = v \<or> (rest t \<noteq> [] \<and> hd (rest t) \<in> set ws_chars)"
  then have "\<not> startsWith (rest t) ''**''"
    using assms(2) star_not_ws by (cases "rest t") auto
  then show "matches True (Seq (Lit ''**'') (Seq (Grp 2 (Plus (NCls [CHR ''*'', CHR 0x0A])))
       (Seq (Lit ''**'') (Seq (Grp 3 (Star (Cls ws_chars))) Eol)))) t = []"
    by (simp add: matches.simps(1) matches.simps(4)[of True "Lit ''**''"])
qed

lemma ordered_dead:
  assumes "set w \<subseteq> set ws_chars"
    "v = [] \<or> (hd v \<notin> set ws_chars \<and> hd v \<notin> set digit_chars)"
  shows "first_match True ordered_re (start_state p (w @ v)) = None"
  unfolding ordered_re_unfold
proof (rule ws_run_dead[OF assms(1)])
  show "v = [] \<or> hd v \<notin> set ws_chars" using assms(2) by blast
next
  fix t :: mstate
  assume "rest t = v \<or> (rest t \<noteq> [] \<and> hd (rest t) \<in> set ws_chars)"
  then have "rest t = [] \<or> hd (rest t) \<notin> set digit_chars"
    using assms(2) digits_not_ws by auto
  then have "matches True (Cls digit_chars) t = []"
    by (cases "rest t") (auto simp: matches.simps(2))
  then show "matches True (Seq (Plus (Cls digit_chars)) (Seq (Lit ''.'') (Cls ws_chars))) t = []"
    by (simp add: Plus_def matches.simps(4)[of True "Seq (Cls digit_chars) (Star (Cls digit_chars))"]
          matches.simps(4)[of True "Cls digit_chars"])
qed

subsection \<open>The lines of a document\<close>

lemma plain_text_facts:
  assumes "plain_text l"
  shows "l \<noteq> []" "\<not> is_ws (last l)" "set l \<inter> set line_terminators = {}"
    "CHR ''`'' \<notin> set l" "CHR 0x5C \<notin> set l"
  using assms by (auto simp: plain_text_def list_all_iff)

lemma digits_plain:
  assumes "c \<in> set digit_chars"
  shows "c \<notin> set line_terminators" "c \<noteq> CHR ''`''" "c \<noteq> CHR 0x5C"
  using assms by (auto simp: digit_chars_def line_terminators_def)

lemma line_ok_facts:
  assumes "line_ok l"
  shows "line_text l \<noteq> []" "set (line_text l) \<inter> set line_terminators = {}"
    "hd (line_text l) \<notin> set ws_chars" "\<not> is_ws (last (line_text l))"
    "CHR ''`'' \<notin> set (line_text l)" "CHR 0x5C \<notin> set (line_text l)"
proof -
  show "line_text l \<noteq> []" using assms by (cases l) (auto simp: plain_text_def)
  show "set (line_text l) \<inter> set line_terminators = {}"
  proof (cases l)
    case (Prose x)
    then show ?thesis using assms plain_text_facts(3)[of x] by simp
  next
    case (Item n s b)
    then show ?thesis
      using assms plain_text_facts(3)[of b] digits_plain(1)
      by (auto simp: list_all_iff line_terminators_def)
  next
    case (Bold t)
    then show ?thesis
      using assms plain_text_facts(3)[of t] by (auto simp: line_terminators_def)
  qed
  show "hd (line_text l) \<notin> set ws_chars"
  proof (cases l)
    case (Prose x)
    then show ?thesis using assms by (simp add: is_ws_def)
  next
    case (Item n s b)
    then have "hd n \<in> set digit_chars" using assms by (cases n) (auto simp: list_all_iff)
    then show ?thesis using Item assms digits_not_ws by (cases n) auto
  next
    case (Bold t)
    then show ?thesis by (simp add: star_not_ws)
  qed
  show "\<not> is_ws (last (line_text l))"
  proof (cases l)
    case (Prose x)
    then show ?thesis using assms plain_text_facts(2)[of x] by simp
  next
    case (Item n s b)
    then show ?thesis using assms plain_text_facts(1,2)[of b] by simp
  next
    case (Bold t)
    then show ?thesis by (simp add: is_ws_def star_not_ws)
  qed
  show "CHR ''`'' \<notin> set (line_text l)"
  proof (cases l)
    case (Prose x)
    then show ?thesis using assms plain_text_facts(4)[of x] by simp
  next
    case (Item n s b)
    then show ?thesis
      using assms plain_text_facts(4)[of b] digits_plain(2)
      by (auto simp: list_all_iff is_ws_def ws_chars_def)
  next
    case (Bold t)
    then show ?thesis using assms plain_text_facts(4)[of t] by simp
  qed
  show "CHR 0x5C \<notin> set (line_text l)"
  proof (cases l)
    case (Prose x)
    then show ?thesis using assms plain_text_facts(5)[of x] by simp
  next
    case (Item n s b)
    then show ?thesis
      using assms plain_text_facts(5)[of b] digits_plain(3)
      by (auto simp: list_all_iff is_ws_def ws_chars_def)
  next
    case (Bold t)
    then show ?thesis using assms plain_text_facts(5)[of t] by simp
  qed
qed

lemma line_ok_promote: "line_ok l \<Longrightarrow> line_ok (promote l)"
  by (cases l) (auto simp: plain_text_def is_ws_def ws_chars_def digit_chars_def
                 line_terminators_def)

lemma line_ok_renumber: "line_ok l \<Longrightarrow> line_ok (renumber l)"
  by (cases l) (auto simp: is_ws_def ws_chars_def digit_chars_def line_terminators_def)

lemma line_ok_settled: "line_ok l \<Longrightarrow> line_ok (settled l)"
  by (simp add: settled_def line_ok_promote line_ok_renumber)


lemma blocks_ok_map:
  assumes "\<And>l. line_ok l \<Longrightarrow> line_ok (f l)" "list_all (\<lambda>b. line_ok (snd b)) bs"
  shows "list_all (\<lambda>b. line_ok (snd b)) (map (apsnd f) bs)"
  using assms by (auto simp: list_all_iff)

lemma following_Cons:
  "following ((k, l) # bs) j
   = replicate (Suc k) (CHR 0x0A) @ line_text l @ following bs j"
  by simp

lemma following_Cons_run:
  "following ((k, l) # bs) j
   = replicate k (CHR 0x0A) @ CHR 0x0A # (line_text l @ following bs j)"
  by (simp add: replicate_app_Cons_same)

lemma following_append:
  "following bs (i + j) = following bs i @ replicate j (CHR 0x0A)"
  by (induction bs) (auto simp: replicate_add)

subsection \<open>A match that starts at the start of a line\<close>

lemma at_line_start:
  assumes "\<And>q i. q = None \<or> (\<exists>c. q = Some c \<and> c \<in> set line_terminators)
             \<Longrightarrow> replace_from True (Seq Bol x) tp q (replicate i (CHR 0x0A) @ Y)
                 = replicate i (CHR 0x0A) @ Z"
    and "p = None \<or> (\<exists>c. p = Some c \<and> c \<in> set line_terminators) \<or> 0 < n"
  shows "replace_from True (Seq Bol x) tp p (replicate n (CHR 0x0A) @ Y)
         = replicate n (CHR 0x0A) @ Z"
proof (cases "p = None \<or> (\<exists>c. p = Some c \<and> c \<in> set line_terminators)")
  case True
  then show ?thesis by (rule assms(1))
next
  case False
  then obtain c0 where p: "p = Some c0" "c0 \<notin> set line_terminators" by (cases p) auto
  from False assms(2) obtain n' where n: "n = Suc n'" by (cases n) auto
  have "replace_from True (Seq Bol x) tp (Some c0) (CHR 0x0A # (replicate n' (CHR 0x0A) @ Y))
        = CHR 0x0A # replace_from True (Seq Bol x) tp (Some (CHR 0x0A)) (replicate n' (CHR 0x0A) @ Y)"
    using p(2) by (intro replace_from_no_match anchored_no_match)
  moreover have "replace_from True (Seq Bol x) tp (Some (CHR 0x0A)) (replicate n' (CHR 0x0A) @ Y)
        = replicate n' (CHR 0x0A) @ Z"
    by (intro assms(1)) (simp add: line_terminators_def)
  ultimately show ?thesis by (simp add: p n)
qed

subsection \<open>Step 1 on a document\<close>

lemma emphasis_match_gen:
  assumes bol: "p = None \<or> (\<exists>c. p = Some c \<and> c \<in> set line_terminators)"
    and ind: "set ind \<subseteq> set ws_chars"
    and t: "t \<noteq> []" "CHR ''*'' \<notin> set t" "CHR 0x0A \<notin> set t"
    and X: "first_match True (Seq (Grp 3 (Star (Cls ws_chars))) Eol)
              \<lparr>prev = Some CHR ''*'', rest = R, caps = [(2, t), (1, ind)]\<rparr> = Some u"
  shows "first_match True emphasis_re (start_state p (ind @ ''**'' @ t @ ''**'' @ R)) = Some u"
proof -
  let ?s0 = "\<lparr>prev = p, rest = ind @ (''**'' @ t @ ''**'' @ R), caps = []\<rparr>"
  let ?q = "if ind = [] then p else Some (last ind)"
  have 0: "first_match True Bol ?s0 = Some ?s0"
    using bol by (intro fm_Bol) (auto simp: at_bol_def)
  have "first_match True (Star (Cls ws_chars)) ?s0
        = Some \<lparr>prev = ?q, rest = ''**'' @ t @ ''**'' @ R, caps = []\<rparr>"
    using ind by (intro fm_Star_Cls) (simp_all add: star_not_ws)
  from fm_Grp[OF this, of 1]
  have 1: "first_match True (Grp 1 (Star (Cls ws_chars))) ?s0
        = Some \<lparr>prev = ?q, rest = ''**'' @ (t @ ''**'' @ R), caps = [(1, ind)]\<rparr>"
    by simp
  have 2: "first_match True (Lit ''**'') \<lparr>prev = ?q, rest = ''**'' @ (t @ ''**'' @ R), caps = [(1, ind)]\<rparr>
        = Some \<lparr>prev = Some CHR ''*'', rest = t @ (''**'' @ R), caps = [(1, ind)]\<rparr>"
    using fm_Lit[of True "''**''" ?q "t @ ''**'' @ R" "[(1, ind)]"] by simp
  have "first_match True (Plus (NCls [CHR ''*'', CHR 0x0A]))
          \<lparr>prev = Some CHR ''*'', rest = t @ (''**'' @ R), caps = [(1, ind)]\<rparr>
        = Some \<lparr>prev = Some (last t), rest = ''**'' @ R, caps = [(1, ind)]\<rparr>"
    using t by (intro fm_Plus_NCls) auto
  from fm_Grp[OF this, of 2]
  have 3: "first_match True (Grp 2 (Plus (NCls [CHR ''*'', CHR 0x0A])))
          \<lparr>prev = Some CHR ''*'', rest = t @ (''**'' @ R), caps = [(1, ind)]\<rparr>
        = Some \<lparr>prev = Some (last t), rest = ''**'' @ R, caps = [(2, t), (1, ind)]\<rparr>"
    by simp
  have 4: "first_match True (Lit ''**'')
          \<lparr>prev = Some (last t), rest = ''**'' @ R, caps = [(2, t), (1, ind)]\<rparr>
        = Some \<lparr>prev = Some CHR ''*'', rest = R, caps = [(2, t), (1, ind)]\<rparr>"
    using fm_Lit[of True "''**''" "Some (last t)" R "[(2, t), (1, ind)]"] by simp
  show ?thesis
    unfolding emphasis_re_unfold start_state_def
    using fm_Seq[OF 0 fm_Seq[OF 1 fm_Seq[OF 2 fm_Seq[OF 3 fm_Seq[OF 4 X]]]]]
    by simp
qed

lemma emphasis_replace_bold:
  assumes bol: "p = None \<or> (\<exists>c. p = Some c \<and> c \<in> set line_terminators)"
    and ind: "set ind \<subseteq> set ws_chars"
    and t: "t \<noteq> []" "CHR ''*'' \<notin> set t" "CHR 0x0A \<notin> set t"
    and X: "first_match True (Seq (Grp 3 (Star (Cls ws_chars))) Eol)
              \<lparr>prev = Some CHR ''*'', rest = R, caps = [(2, t), (1, ind)]\<rparr>
            = Some \<lparr>prev = q, rest = R', caps = [(3, g), (2, t), (1, ind)]\<rparr>"
    and len: "length R' \<le> length R"
  shows "replace_from True emphasis_re [G 1, T ''### '', G 2, G 3] p (ind @ ''**'' @ t @ ''**'' @ R)
         = ind @ ''### '' @ t @ g
           @ replace_from True emphasis_re [G 1, T ''### '', G 2, G 3] q R'"
proof -
  have "length R' < length (ind @ ''**'' @ t @ ''**'' @ R)" using len by simp
  then show ?thesis
    by (subst replace_from_match[OF emphasis_match_gen[OF bol ind t X]])
       (simp_all add: capture_def)
qed

lemma emphasis_bold_more:
  assumes "p = None \<or> (\<exists>c. p = Some c \<and> c \<in> set line_terminators) \<or> 0 < n"
    and t: "t \<noteq> []" "CHR ''*'' \<notin> set t" "CHR 0x0A \<notin> set t"
    and c: "c \<notin> set ws_chars"
  shows "replace_from True emphasis_re [G 1, T ''### '', G 2, G 3] p
           (replicate n (CHR 0x0A) @ ''**'' @ t @ ''**'' @ replicate k (CHR 0x0A) @ CHR 0x0A # c # r)
         = replicate n (CHR 0x0A) @ ''### '' @ t @ replicate k (CHR 0x0A)
           @ replace_from True emphasis_re [G 1, T ''### '', G 2, G 3]
               (if k = 0 then Some CHR ''*'' else Some (CHR 0x0A)) (CHR 0x0A # c # r)"
  unfolding emphasis_re_unfold
proof (rule at_line_start[OF _ assms(1)], fold emphasis_re_unfold)
  fix q :: "char option" and i :: nat
  assume bol: "q = None \<or> (\<exists>c. q = Some c \<and> c \<in> set line_terminators)"
  let ?w = "replicate k (CHR 0x0A)"
  have X: "first_match True (Seq (Grp 3 (Star (Cls ws_chars))) Eol)
              \<lparr>prev = Some CHR ''*'', rest = ?w @ CHR 0x0A # c # r,
               caps = [(2, t), (1, replicate i (CHR 0x0A))]\<rparr>
            = Some \<lparr>prev = (if ?w = [] then Some CHR ''*'' else Some (last ?w)),
                     rest = CHR 0x0A # c # r,
                     caps = [(3, ?w), (2, t), (1, replicate i (CHR 0x0A))]\<rparr>"
    using lfs_ws c by (rule fm_trailing_ws_more)
  have q: "(if ?w = [] then Some CHR ''*'' else Some (last ?w))
           = (if k = 0 then Some CHR ''*'' else Some (CHR 0x0A))"
    by simp
  show "replace_from True emphasis_re [G 1, T ''### '', G 2, G 3] q
          (replicate i (CHR 0x0A) @ ''**'' @ t @ ''**'' @ ?w @ CHR 0x0A # c # r)
        = replicate i (CHR 0x0A) @ ''### '' @ t @ ?w
          @ replace_from True emphasis_re [G 1, T ''### '', G 2, G 3]
              (if k = 0 then Some CHR ''*'' else Some (CHR 0x0A)) (CHR 0x0A # c # r)"
    using emphasis_replace_bold[OF bol lfs_ws t X] unfolding q by simp
qed

lemma emphasis_bold_end:
  assumes "p = None \<or> (\<exists>c. p = Some c \<and> c \<in> set line_terminators) \<or> 0 < n"
    and t: "t \<noteq> []" "CHR ''*'' \<notin> set t" "CHR 0x0A \<notin> set t"
  shows "replace_from True emphasis_re [G 1, T ''### '', G 2, G 3] p
           (replicate n (CHR 0x0A) @ ''**'' @ t @ ''**'' @ replicate j (CHR 0x0A))
         = replicate n (CHR 0x0A) @ ''### '' @ t @ replicate j (CHR 0x0A)"
  unfolding emphasis_re_unfold
proof (rule at_line_start[OF _ assms(1)], fold emphasis_re_unfold)
  fix q :: "char option" and i :: nat
  assume bol: "q = None \<or> (\<exists>c. q = Some c \<and> c \<in> set line_terminators)"
  let ?w = "replicate j (CHR 0x0A)"
  let ?q = "if ?w = [] then Some CHR ''*'' else Some (last ?w)"
  have X: "first_match True (Seq (Grp 3 (Star (Cls ws_chars))) Eol)
              \<lparr>prev = Some CHR ''*'', rest = ?w, caps = [(2, t), (1, replicate i (CHR 0x0A))]\<rparr>
            = Some \<lparr>prev = ?q, rest = [],
                     caps = [(3, ?w), (2, t), (1, replicate i (CHR 0x0A))]\<rparr>"
    using lfs_ws by (rule fm_trailing_ws_end)
  have e: "replace_from True emphasis_re [G 1, T ''### '', G 2, G 3] ?q [] = []"
    using emphasis_dead[of "[]" "[]" ?q] by (intro replace_from_Nil_no_match) simp
  show "replace_from True emphasis_re [G 1, T ''### '', G 2, G 3] q
          (replicate i (CHR 0x0A) @ ''**'' @ t @ ''**'' @ ?w)
        = replicate i (CHR 0x0A) @ ''### '' @ t @ ?w"
    using emphasis_replace_bold[OF bol lfs_ws t X] unfolding e by simp
qed

lemma emphasis_copy_line:
  assumes "l \<noteq> []" "set l \<inter> set line_terminators = {}" "hd l \<notin> set ws_chars"
    "hd l \<noteq> CHR ''*''"
  shows "replace_from True emphasis_re tp p (replicate n (CHR 0x0A) @ l @ R)
         = replicate n (CHR 0x0A) @ l @ replace_from True emphasis_re tp (Some (last l)) R"
  unfolding emphasis_re_unfold
proof (rule copy_block[OF _ assms(1,2)], fold emphasis_re_unfold)
  fix q :: "char option" and i :: nat
  show "first_match True emphasis_re (start_state q (replicate i (CHR 0x0A) @ l @ R)) = None"
    using assms(1,3,4) by (intro emphasis_dead lfs_ws) simp
qed

lemma emphasis_tail:
  "replace_from True emphasis_re tp p (replicate j (CHR 0x0A)) = replicate j (CHR 0x0A)"
proof (rule copy_tail)
  fix q :: "char option" and i :: nat
  show "first_match True emphasis_re (start_state q (replicate i (CHR 0x0A))) = None"
    using emphasis_dead[of "replicate i (CHR 0x0A)" "[]" q] lfs_ws[of i] by simp
qed

lemma emphasis_blocks:
  assumes "line_ok l" "list_all (\<lambda>b. line_ok (snd b)) bs"
    and "p = None \<or> (\<exists>c. p = Some c \<and> c \<in> set line_terminators) \<or> 0 < n"
  shows "replace_from True emphasis_re [G 1, T ''### '', G 2, G 3] p
           (replicate n (CHR 0x0A) @ line_text l @ following bs j)
         = replicate n (CHR 0x0A) @ line_text (promote l)
           @ following (map (apsnd promote) bs) j"
  using assms
proof (induction bs arbitrary: n p l)
  case Nil
  note f = line_ok_facts[OF Nil(1)]
  show ?case
  proof (cases l)
    case (Bold t)
    then have t: "t \<noteq> []" "CHR ''*'' \<notin> set t" "CHR 0x0A \<notin> set t"
      using Nil(1) plain_text_facts(1,3)[of t] by (auto simp: line_terminators_def)
    show ?thesis using emphasis_bold_end[OF Nil(3) t] by (simp add: Bold)
  next
    case (Prose x)
    then have "hd (line_text l) \<noteq> CHR ''*''" using Nil(1) by simp
    from emphasis_copy_line[OF f(1,2,3) this] show ?thesis
      by (simp add: Prose emphasis_tail)
  next
    case (Item m s b)
    then have "hd (line_text l) \<in> set digit_chars"
      using Nil(1) by (cases m) (auto simp: list_all_iff)
    then have "hd (line_text l) \<noteq> CHR ''*''" using digit_facts(2) by blast
    from emphasis_copy_line[OF f(1,2,3) this] show ?thesis
      by (simp add: Item emphasis_tail)
  qed
next
  case (Cons b bs)
  obtain k l' where b: "b = (k, l')" by (cases b) auto
  from Cons.prems(2) b have ok': "line_ok l'" and oks: "list_all (\<lambda>b. line_ok (snd b)) bs"
    by auto
  note f = line_ok_facts[OF Cons.prems(1)]
  note f' = line_ok_facts[OF ok']
  have ih: "replace_from True emphasis_re [G 1, T ''### '', G 2, G 3] q
              (replicate (Suc i) (CHR 0x0A) @ line_text l' @ following bs j)
            = replicate (Suc i) (CHR 0x0A) @ line_text (promote l')
              @ following (map (apsnd promote) bs) j" for q i
    by (rule Cons.IH[OF ok' oks]) simp
  have plain: "?case" if star: "hd (line_text l) \<noteq> CHR ''*''" and same: "promote l = l"
  proof -
    have A: "replace_from True emphasis_re [G 1, T ''### '', G 2, G 3] p
            (replicate n (CHR 0x0A) @ line_text l @ following (b # bs) j)
          = replicate n (CHR 0x0A) @ line_text l
            @ replace_from True emphasis_re [G 1, T ''### '', G 2, G 3] (Some (last (line_text l)))
                (following (b # bs) j)"
      by (rule emphasis_copy_line[OF f(1,2,3) star])
    have B: "replace_from True emphasis_re [G 1, T ''### '', G 2, G 3] (Some (last (line_text l)))
                (following (b # bs) j)
          = following (map (apsnd promote) (b # bs)) j"
      using ih[of "Some (last (line_text l))" k] by (simp add: b)
    show ?thesis unfolding A B same ..
  qed
  show ?case
  proof (cases l)
    case (Prose x)
    then show ?thesis using Cons.prems(1) by (intro plain) simp_all
  next
    case (Item m s b')
    then have "hd (line_text l) \<in> set digit_chars"
      using Cons.prems(1) by (cases m) (auto simp: list_all_iff)
    then have "hd (line_text l) \<noteq> CHR ''*''" using digit_facts(2) by blast
    then show ?thesis using Item by (intro plain) simp_all
  next
    case (Bold t)
    then have t: "t \<noteq> []" "CHR ''*'' \<notin> set t" "CHR 0x0A \<notin> set t"
      using Cons.prems(1) plain_text_facts(1,3)[of t] by (auto simp: line_terminators_def)
    obtain c r where cr: "line_text l' @ following bs j = c # r" "c \<notin> set ws_chars"
      using f'(1,3) by (cases "line_text l'") auto
    have "replace_from True emphasis_re [G 1, T ''### '', G 2, G 3] p
            (replicate n (CHR 0x0A) @ ''**'' @ t @ ''**'' @ replicate k (CHR 0x0A) @ CHR 0x0A # c # r)
          = replicate n (CHR 0x0A) @ ''### '' @ t @ replicate k (CHR 0x0A)
            @ replace_from True emphasis_re [G 1, T ''### '', G 2, G 3]
                (if k = 0 then Some CHR ''*'' else Some (CHR 0x0A)) (CHR 0x0A # c # r)"
      by (rule emphasis_bold_more[OF Cons.prems(3) t cr(2)])
    moreover have "replace_from True emphasis_re [G 1, T ''### '', G 2, G 3]
                (if k = 0 then Some CHR ''*'' else Some (CHR 0x0A)) (CHR 0x0A # c # r)
          = CHR 0x0A # line_text (promote l') @ following (map (apsnd promote) bs) j"
      using ih[of _ 0] by (simp add: cr(1))
    ultimately show ?thesis
      by (simp add: Bold b cr(1) replicate_app_Cons_same)
  qed
qed

lemma emphasis_document:
  assumes "doc_ok l0 bs"
  shows "fix_emphasis_heading (document l0 bs j)
         = document (promote l0) (map (apsnd promote) bs) j"
  using emphasis_blocks[of l0 bs None 0 j] assms
  by (simp add: fix_emphasis_heading_def replace_g_def document_def doc_ok_def)

subsection \<open>Step 2 on a document\<close>

lemma ordered_item_block:
  assumes "p = None \<or> (\<exists>c. p = Some c \<and> c \<in> set line_terminators) \<or> 0 < n"
    and num: "num \<noteq> []" "set num \<subseteq> set digit_chars"
    and sep: "s \<in> set ws_chars" "s \<notin> set line_terminators"
    and bd: "set bd \<inter> set line_terminators = {}"
  shows "replace_from True ordered_re [G 1, T ''1. ''] p
           (replicate n (CHR 0x0A) @ num @ ''.'' @ s # bd @ R)
         = replicate n (CHR 0x0A) @ ''1. '' @ bd
           @ replace_from True ordered_re [G 1, T ''1. ''] (Some (last (s # bd))) R"
  unfolding ordered_re_unfold
proof (rule at_line_start[OF _ assms(1)], fold ordered_re_unfold)
  fix q :: "char option" and i :: nat
  assume bol: "q = None \<or> (\<exists>c. q = Some c \<and> c \<in> set line_terminators)"
  let ?tp = "[G 1, T ''1. '']"
  let ?ind = "replicate i (CHR 0x0A)"
  have fm: "first_match True ordered_re (start_state q (?ind @ num @ ''.'' @ s # (bd @ R)))
            = Some \<lparr>prev = Some s, rest = bd @ R, caps = [(1, ?ind)]\<rparr>"
    using bol lfs_ws num sep(1) by (rule ordered_first_match)
  have step1: "replace_from True ordered_re ?tp q (?ind @ num @ ''.'' @ s # (bd @ R))
        = ?ind @ ''1. '' @ replace_from True ordered_re ?tp (Some s) (bd @ R)"
    by (subst replace_from_match[OF fm]) (simp_all add: capture_def)
  have step2: "replace_from True ordered_re ?tp (Some s) (bd @ R)
        = bd @ replace_from True ordered_re ?tp (Some (last (s # bd))) R"
    unfolding ordered_re_unfold using sep(2) bd by (rule anchored_skip)
  show "replace_from True ordered_re ?tp q (?ind @ num @ ''.'' @ s # bd @ R)
        = ?ind @ ''1. '' @ bd @ replace_from True ordered_re ?tp (Some (last (s # bd))) R"
    using step1 step2 by simp
qed

lemma ordered_copy_line:
  assumes "l \<noteq> []" "set l \<inter> set line_terminators = {}" "hd l \<notin> set ws_chars"
    "hd l \<notin> set digit_chars"
  shows "replace_from True ordered_re tp p (replicate n (CHR 0x0A) @ l @ R)
         = replicate n (CHR 0x0A) @ l @ replace_from True ordered_re tp (Some (last l)) R"
  unfolding ordered_re_unfold
proof (rule copy_block[OF _ assms(1,2)], fold ordered_re_unfold)
  fix q :: "char option" and i :: nat
  show "first_match True ordered_re (start_state q (replicate i (CHR 0x0A) @ l @ R)) = None"
    using assms(1,3,4) by (intro ordered_dead lfs_ws) simp
qed

lemma ordered_tail:
  "replace_from True ordered_re tp p (replicate j (CHR 0x0A)) = replicate j (CHR 0x0A)"
proof (rule copy_tail)
  fix q :: "char option" and i :: nat
  show "first_match True ordered_re (start_state q (replicate i (CHR 0x0A))) = None"
    using ordered_dead[of "replicate i (CHR 0x0A)" "[]" q] lfs_ws[of i] by simp
qed

lemma ordered_line:
  assumes "line_ok l"
    and "p = None \<or> (\<exists>c. p = Some c \<and> c \<in> set line_terminators) \<or> 0 < n"
  shows "\<exists>q. replace_from True ordered_re [G 1, T ''1. ''] p
               (replicate n (CHR 0x0A) @ line_text l @ R)
             = replicate n (CHR 0x0A) @ line_text (renumber l)
               @ replace_from True ordered_re [G 1, T ''1. ''] q R"
proof (cases l)
  case (Prose x)
  note f = line_ok_facts[OF assms(1)]
  have "hd (line_text l) \<notin> set digit_chars" using assms(1) Prose by simp
  from ordered_copy_line[OF f(1,2,3) this, of "[G 1, T ''1. '']" p n R]
  show ?thesis unfolding Prose renumber.simps by (rule exI)
next
  case (Bold t)
  note f = line_ok_facts[OF assms(1)]
  have "hd (line_text l) \<notin> set digit_chars" using Bold by (simp add: digit_chars_def)
  from ordered_copy_line[OF f(1,2,3) this, of "[G 1, T ''1. '']" p n R]
  show ?thesis unfolding Bold renumber.simps by (rule exI)
next
  case (Item m s b)
  then have m: "m \<noteq> []" "set m \<subseteq> set digit_chars"
    and s: "s \<in> set ws_chars" "s \<notin> set line_terminators"
    and b: "set b \<inter> set line_terminators = {}"
    using assms(1) plain_text_facts(3)[of b] by (auto simp: list_all_iff is_ws_def)
  from ordered_item_block[OF assms(2) m s b, of R]
  have "replace_from True ordered_re [G 1, T ''1. ''] p
           (replicate n (CHR 0x0A) @ line_text (Item m s b) @ R)
         = replicate n (CHR 0x0A) @ line_text (renumber (Item m s b))
           @ replace_from True ordered_re [G 1, T ''1. ''] (Some (last (s # b))) R"
    by simp
  then show ?thesis unfolding Item by (rule exI)
qed

lemma ordered_blocks:
  assumes "line_ok l" "list_all (\<lambda>b. line_ok (snd b)) bs"
    and "p = None \<or> (\<exists>c. p = Some c \<and> c \<in> set line_terminators) \<or> 0 < n"
  shows "replace_from True ordered_re [G 1, T ''1. ''] p
           (replicate n (CHR 0x0A) @ line_text l @ following bs j)
         = replicate n (CHR 0x0A) @ line_text (renumber l)
           @ following (map (apsnd renumber) bs) j"
  using assms
proof (induction bs arbitrary: n p l)
  case Nil
  from ordered_line[OF Nil(1,3), of "following [] j"] obtain q where
    "replace_from True ordered_re [G 1, T ''1. ''] p
       (replicate n (CHR 0x0A) @ line_text l @ following [] j)
     = replicate n (CHR 0x0A) @ line_text (renumber l)
       @ replace_from True ordered_re [G 1, T ''1. ''] q (following [] j)"
    by blast
  then show ?case by (simp add: ordered_tail)
next
  case (Cons b bs)
  obtain k l' where b: "b = (k, l')" by (cases b) auto
  from Cons.prems(2) b have ok': "line_ok l'" and oks: "list_all (\<lambda>b. line_ok (snd b)) bs"
    by auto
  from ordered_line[OF Cons.prems(1,3), of "following (b # bs) j"] obtain q where
    A: "replace_from True ordered_re [G 1, T ''1. ''] p
       (replicate n (CHR 0x0A) @ line_text l @ following (b # bs) j)
     = replicate n (CHR 0x0A) @ line_text (renumber l)
       @ replace_from True ordered_re [G 1, T ''1. ''] q (following (b # bs) j)"
    by blast
  have "replace_from True ordered_re [G 1, T ''1. ''] q
              (replicate (Suc k) (CHR 0x0A) @ line_text l' @ following bs j)
            = replicate (Suc k) (CHR 0x0A) @ line_text (renumber l')
              @ following (map (apsnd renumber) bs) j"
    by (rule Cons.IH[OF ok' oks]) simp
  then have B: "replace_from True ordered_re [G 1, T ''1. ''] q (following (b # bs) j)
          = following (map (apsnd renumber) (b # bs)) j"
    by (simp add: b)
  show ?case unfolding A B ..
qed

lemma ordered_document:
  assumes "doc_ok l0 bs"
  shows "fix_ordered_prefix (document l0 bs j)
         = document (renumber l0) (map (apsnd renumber) bs) j"
  using ordered_blocks[of l0 bs None 0 j] assms
  by (simp add: fix_ordered_prefix_def replace_g_def document_def doc_ok_def)

subsection \<open>Steps 3 to 6 on a document\<close>

lemma dead_blocks:
  assumes dead: "\<And>q v. v = [] \<or> hd v \<noteq> d
                   \<Longrightarrow> first_match True (Seq Bol x) (start_state q v) = None"
    and d: "d \<noteq> CHR 0x0A" "d \<in> set ws_chars"
    and "line_ok l" "list_all (\<lambda>b. line_ok (snd b)) bs"
  shows "replace_from True (Seq Bol x) tp p (replicate n (CHR 0x0A) @ line_text l @ following bs j)
         = replicate n (CHR 0x0A) @ line_text l @ following bs j"
  using assms(4,5)
proof (induction bs arbitrary: n p l)
  case Nil
  note f = line_ok_facts[OF Nil(1)]
  have 1: "first_match True (Seq Bol x)
             (start_state q (replicate i (CHR 0x0A) @ line_text l @ following [] j)) = None" for q i
    using f(1,3) d by (intro dead) (cases i; auto simp: hd_append)
  have 2: "first_match True (Seq Bol x) (start_state q (replicate i (CHR 0x0A))) = None" for q i
    using d(1) by (intro dead) (cases i; auto)
  have A: "replace_from True (Seq Bol x) tp p
             (replicate n (CHR 0x0A) @ line_text l @ following [] j)
           = replicate n (CHR 0x0A) @ line_text l
             @ replace_from True (Seq Bol x) tp (Some (last (line_text l))) (following [] j)"
    using 1 f(1,2) by (intro copy_block)
  have B: "replace_from True (Seq Bol x) tp (Some (last (line_text l))) (following [] j)
        = following [] j"
    using 2 by (simp add: copy_tail)
  show ?case unfolding A B ..
next
  case (Cons b bs)
  obtain k l' where b: "b = (k, l')" by (cases b) auto
  from Cons.prems(2) b have ok': "line_ok l'" and oks: "list_all (\<lambda>b. line_ok (snd b)) bs"
    by auto
  note f = line_ok_facts[OF Cons.prems(1)]
  have 1: "first_match True (Seq Bol x)
             (start_state q (replicate i (CHR 0x0A) @ line_text l @ following (b # bs) j)) = None"
    for q i
    using f(1,3) d by (intro dead) (cases i; auto simp: hd_append)
  have A: "replace_from True (Seq Bol x) tp p
             (replicate n (CHR 0x0A) @ line_text l @ following (b # bs) j)
           = replicate n (CHR 0x0A) @ line_text l
             @ replace_from True (Seq Bol x) tp (Some (last (line_text l))) (following (b # bs) j)"
    using 1 f(1,2) by (intro copy_block)
  have "replace_from True (Seq Bol x) tp (Some (last (line_text l)))
              (replicate (Suc k) (CHR 0x0A) @ line_text l' @ following bs j)
            = replicate (Suc k) (CHR 0x0A) @ line_text l' @ following bs j"
    by (rule Cons.IH[OF ok' oks])
  then have B: "replace_from True (Seq Bol x) tp (Some (last (line_text l))) (following (b # bs) j)
          = following (b # bs) j"
    by (simp add: b)
  show ?case unfolding A B ..
qed

lemma seq_dead: "matches m a s = [] \<Longrightarrow> matches m (Seq a b) s = []"
  by (simp add: matches.simps(4))

lemma grp_dead: "matches m a s = [] \<Longrightarrow> matches m (Grp n a) s = []"
  by (simp add: matches.simps(10))

lemma bol_dead:
  assumes "matches m b s = []"
  shows "first_match m (Seq Bol b) s = None"
proof -
  have "matches m (Seq Bol b) s = concat (map (matches m b) (matches m Bol s))"
    by (rule matches.simps(4))
  also have "\<dots> = []" by (simp add: matches.simps(7) assms)
  finally show ?thesis by (simp add: first_match_def)
qed

lemma space_dead:
  assumes "v = [] \<or> hd v \<noteq> CHR '' ''"
  shows "matches True (Seq (Lit '' '') b) (start_state q v) = []"
proof -
  have "matches True (Lit '' '') (start_state q v) = []"
    using assms by (cases v) (auto simp: matches.simps(1) start_state_def)
  then show ?thesis by (rule seq_dead)
qed

lemma indent2_dead:
  assumes "v = [] \<or> hd v \<noteq> CHR '' ''"
  shows "first_match True (Seq Bol (Seq (Grp 1 (Rep 2 2 (Lit '' ''))) (Grp 2 list_marker)))
           (start_state q v) = None"
proof -
  have "Rep 2 2 (Lit '' '') = Seq (Lit '' '') (Rep 1 1 (Lit '' ''))"
    by (simp add: numeral_2_eq_2)
  then have "matches True (Rep 2 2 (Lit '' '')) (start_state q v) = []"
    using space_dead[OF assms] by simp
  then show ?thesis by (intro bol_dead seq_dead grp_dead)
qed

lemma indent4_dead:
  assumes "v = [] \<or> hd v \<noteq> CHR '' ''"
  shows "first_match True (Seq Bol (Seq (Grp 1 (Rep 4 4 (Lit '' ''))) (Grp 2 list_marker)))
           (start_state q v) = None"
proof -
  have "Rep 4 4 (Lit '' '') = Seq (Lit '' '') (Rep 3 3 (Lit '' ''))"
    by (simp add: numeral_eq_Suc)
  then have "matches True (Rep 4 4 (Lit '' '')) (start_state q v) = []"
    using space_dead[OF assms] by simp
  then show ?thesis by (intro bol_dead seq_dead grp_dead)
qed

lemma indentation_document:
  assumes "doc_ok l0 bs"
  shows "fix_indentation (document l0 bs j) = document l0 bs j"
proof -
  have sp: "CHR '' '' \<noteq> CHR 0x0A" "CHR '' '' \<in> set ws_chars" by (simp_all add: ws_chars_def)
  from assms have ok: "line_ok l0" "list_all (\<lambda>b. line_ok (snd b)) bs"
    by (simp_all add: doc_ok_def)
  have "replace_from True (Seq Bol (Seq (Grp 1 (Rep 2 2 (Lit '' ''))) (Grp 2 list_marker)))
          [T ''    '', G 2] None (replicate 0 (CHR 0x0A) @ line_text l0 @ following bs j)
        = replicate 0 (CHR 0x0A) @ line_text l0 @ following bs j"
    using indent2_dead sp ok by (rule dead_blocks)
  then have 1: "replace_g True indent2_re [T ''    '', G 2] (document l0 bs j) = document l0 bs j"
    unfolding replace_g_def indent2_re_unfold document_def by simp
  have "replace_from True (Seq Bol (Seq (Grp 1 (Rep 4 4 (Lit '' ''))) (Grp 2 list_marker)))
          [T ''        '', G 2] None (replicate 0 (CHR 0x0A) @ line_text l0 @ following bs j)
        = replicate 0 (CHR 0x0A) @ line_text l0 @ following bs j"
    using indent4_dead sp ok by (rule dead_blocks)
  then have 2: "replace_g True indent4_re [T ''        '', G 2] (document l0 bs j) = document l0 bs j"
    unfolding replace_g_def indent4_re_unfold document_def by simp
  show ?thesis unfolding fix_indentation_def 1 2 ..
qed

lemma matches_ends_with_lit:
  assumes "t \<in> set (matches m (Seq a (Lit w)) s)"
  shows "\<exists>x. rest s = x @ w @ rest t"
proof -
  from assms obtain u where u: "u \<in> set (matches m a s)" "t \<in> set (matches m (Lit w) u)"
    by (auto simp: matches.simps(4))
  from u(2) have sw: "startsWith (rest u) w" and t: "t = step_over w u"
    by (auto simp: matches.simps(1) split: if_splits)
  from sw obtain r where r: "rest u = w @ r" by (auto simp: startsWith_iff)
  from matches_suffix[OF u(1)] obtain x where "rest s = x @ rest u" by blast
  then show ?thesis using r t by (intro exI[of _ x]) (simp add: step_over_def)
qed

lemma header_period_dead:
  assumes "CHR 0x5C \<notin> set v"
  shows "first_match True header_period_re (start_state q v) = None"
proof -
  let ?g = "Seq (Grp 1 (Seq (Rep 1 6 (Lit ''#'')) (Seq (Plus (Cls ws_chars)) (Plus (Cls digit_chars)))))
                (Lit [CHR 0x5C, CHR ''.'', CHR '' ''])"
  have "matches True ?g (start_state q v) = []"
  proof (rule ccontr)
    assume "matches True ?g (start_state q v) \<noteq> []"
    then obtain t where "t \<in> set (matches True ?g (start_state q v))"
      by (cases "matches True ?g (start_state q v)") auto
    from matches_ends_with_lit[OF this] obtain x where
      "v = x @ [CHR 0x5C, CHR ''.'', CHR '' ''] @ rest t"
      by (auto simp: start_state_def)
    then have "CHR 0x5C \<in> set v" by simp
    with assms show False by blast
  qed
  then show ?thesis
    unfolding header_period_re_unfold by (rule bol_dead)
qed

lemma no_match_id:
  assumes "\<And>q u v. s = u @ v \<Longrightarrow> first_match m r (start_state q v) = None"
  shows "replace_from m r tp p s = s"
  using assms
proof (induction s arbitrary: p)
  case Nil
  then show ?case by (intro replace_from_Nil_no_match) simp
next
  case (Cons c cs)
  have "first_match m r (start_state p (c # cs)) = None" by (rule Cons.prems[of "[]"]) simp
  then have "replace_from m r tp p (c # cs) = c # replace_from m r tp (Some c) cs"
    by (rule replace_from_no_match)
  moreover have "replace_from m r tp (Some c) cs = cs"
  proof (rule Cons.IH)
    fix q u v assume "cs = u @ v"
    then have "c # cs = (c # u) @ v" by simp
    then show "first_match m r (start_state q v) = None" by (rule Cons.prems)
  qed
  ultimately show ?case by simp
qed

lemma following_free:
  assumes "list_all (\<lambda>b. line_ok (snd b)) bs" "c \<noteq> CHR 0x0A"
    and "\<And>l. line_ok l \<Longrightarrow> c \<notin> set (line_text l)"
  shows "c \<notin> set (following bs j)"
  using assms(1)
proof (induction bs)
  case Nil
  then show ?case using assms(2) by simp
next
  case (Cons b bs)
  obtain k l where b: "b = (k, l)" by (cases b) auto
  with Cons show ?case using assms(2) assms(3)[of l] by auto
qed

lemma document_free:
  assumes "doc_ok l0 bs" "c \<noteq> CHR 0x0A"
    and "\<And>l. line_ok l \<Longrightarrow> c \<notin> set (line_text l)"
  shows "c \<notin> set (document l0 bs j)"
  using assms following_free[of bs c j] by (auto simp: document_def doc_ok_def)

lemma escaped_periods_document:
  assumes "doc_ok l0 bs"
  shows "fix_escaped_periods (document l0 bs j) = document l0 bs j"
  unfolding fix_escaped_periods_def replace_g_def
proof (rule no_match_id)
  fix q :: "char option" and u v :: string
  assume "document l0 bs j = u @ v"
  moreover have "CHR 0x5C \<notin> set (document l0 bs j)"
    using assms by (rule document_free) (simp_all add: line_ok_facts(6))
  ultimately have "CHR 0x5C \<notin> set v" by simp
  then show "first_match True header_period_re (start_state q v) = None"
    by (rule header_period_dead)
qed

lemma fence_document:
  assumes "doc_ok l0 bs"
  shows "fix_fence_blank_lines (document l0 bs j) = document l0 bs j"
proof -
  have "CHR ''`'' \<notin> set (document l0 bs j)"
    using assms by (rule document_free) (simp_all add: line_ok_facts(5))
  then show ?thesis by (simp add: fix_fence_blank_lines_eq ins_before_plain ins_after_plain)
qed

lemma following_last:
  assumes "list_all (\<lambda>b. line_ok (snd b)) bs" "bs \<noteq> []"
  shows "following bs 0 \<noteq> [] \<and> \<not> is_ws (last (following bs 0))"
  using assms
proof (induction bs)
  case Nil
  then show ?case by simp
next
  case (Cons b bs)
  obtain k l where b: "b = (k, l)" by (cases b) auto
  with Cons.prems have ok: "line_ok l" by simp
  note f = line_ok_facts[OF ok]
  show ?case
  proof (cases "bs = []")
    case True
    then show ?thesis using f(1,4) by (simp add: b)
  next
    case False
    with Cons have "following bs 0 \<noteq> []" "\<not> is_ws (last (following bs 0))" by auto
    then show ?thesis by (simp add: b)
  qed
qed

lemma trim_document:
  assumes "doc_ok l0 bs"
  shows "trim (document l0 bs j) = document l0 bs 0"
proof -
  from assms have ok: "line_ok l0" "list_all (\<lambda>b. line_ok (snd b)) bs"
    by (simp_all add: doc_ok_def)
  note f = line_ok_facts[OF ok(1)]
  have split: "document l0 bs j = document l0 bs 0 @ replicate j (CHR 0x0A)"
    using following_append[of bs 0 j] by (simp add: document_def)
  have ne: "document l0 bs 0 \<noteq> []" using f(1) by (simp add: document_def)
  have hd: "\<not> is_ws (hd (document l0 bs 0))"
    using f(1,3) by (simp add: document_def is_ws_def)
  have last: "\<not> is_ws (last (document l0 bs 0))"
  proof (cases "bs = []")
    case True
    then show ?thesis using f(1,4) by (simp add: document_def)
  next
    case False
    from following_last[OF ok(2) False] show ?thesis by (simp add: document_def)
  qed
  have ws: "\<forall>c\<in>set (replicate j (CHR 0x0A)). is_ws c" by (simp add: is_ws_newline)
  show ?thesis unfolding split by (rule trim_append_ws[OF ne hd last ws])
qed

lemma doc_ok_map:
  assumes "\<And>l. line_ok l \<Longrightarrow> line_ok (f l)" "doc_ok l0 bs"
  shows "doc_ok (f l0) (map (apsnd f) bs)"
  using assms by (auto simp: doc_ok_def list_all_iff)

lemma lint_rewrites_document:
  assumes "doc_ok l0 bs"
  shows "lint_rewrites (document l0 bs j) = document (settled l0) (map (apsnd settled) bs) j"
proof -
  have ok1: "doc_ok (promote l0) (map (apsnd promote) bs)"
    using line_ok_promote assms by (rule doc_ok_map)
  have ok2: "doc_ok (renumber (promote l0)) (map (apsnd renumber) (map (apsnd promote) bs))"
    using line_ok_renumber ok1 by (rule doc_ok_map)
  have s: "renumber (promote l0) = settled l0"
    "map (apsnd renumber) (map (apsnd promote) bs) = map (apsnd settled) bs"
    by (simp_all add: settled_def apsnd_def map_prod_def case_prod_beta)
  have ok3: "doc_ok (settled l0) (map (apsnd settled) bs)" using ok2 unfolding s .
  have 1: "fix_emphasis_heading (document l0 bs j) = document (promote l0) (map (apsnd promote) bs) j"
    by (rule emphasis_document[OF assms])
  have 2: "fix_ordered_prefix (document (promote l0) (map (apsnd promote) bs) j)
           = document (settled l0) (map (apsnd settled) bs) j"
    using ordered_document[OF ok1, of j] unfolding s .
  show ?thesis
    unfolding lint_rewrites_def 1 2 indentation_document[OF ok3] escaped_periods_document[OF ok3]
      fence_document[OF ok3] ..
qed

lemma doc_ok_settled: "doc_ok l0 bs \<Longrightarrow> doc_ok (settled l0) (map (apsnd settled) bs)"
  using line_ok_settled by (rule doc_ok_map)


lemma postProcess_document:
  assumes "doc_ok l0 bs"
  shows "postProcessMarkdown (document l0 bs j)
         = document (settled l0) (map (apsnd settled) bs) 1"
proof -
  have "postProcessMarkdown (document l0 bs j)
             = document (settled l0) (map (apsnd settled) bs) 0 @ [CHR 0x0A]"
    by (simp add: postProcessMarkdown_def single_trailing_newline_def
          lint_rewrites_document[OF assms] trim_document[OF doc_ok_settled[OF assms]])
  also have "\<dots> = document (settled l0) (map (apsnd settled) bs) 1"
    using following_append[of "map (apsnd settled) bs" 0 1] by (simp add: document_def)
  finally show ?thesis .
qed

subsection \<open>Language detection\<close>

text \<open>
  C5. \<open>detectLanguage\<close> returns \<^verbatim>\<open>javascript\<close> for the two lines \<^verbatim>\<open>const x = 1;\<close> and
  \<^verbatim>\<open>console.log(x);\<close>, \<^verbatim>\<open>shell\<close> for \<^verbatim>\<open>git status\<close>, and \<^verbatim>\<open>json\<close> for the text made of an
  open brace, \<^verbatim>\<open>a\<close> in double quotes, a colon, \<^verbatim>\<open>1\<close> and a close brace.
\<close>

theorem detectLanguage_examples:
  "detectLanguage ''const x = 1;\<newline>console.log(x);'' = ''javascript''
   \<and> detectLanguage ''git status'' = ''shell''
   \<and> detectLanguage [CHR ''{'', CHR 0x22, CHR ''a'', CHR 0x22, CHR '':'', CHR ''1'', CHR ''}'']
       = ''json''"
  by code_simp

subsection \<open>Re-indentation\<close>

text \<open>
  C3. The claim: a line indented by exactly two spaces before a list marker is
  re-indented to four spaces, a line indented by four spaces to eight. In the code
  the second replacement runs on the output of the first, so that a line indented by two
  spaces ends with eight, like a line indented by four: the two nesting levels are merged.
\<close>

theorem reindent_two_spaces_gives_eight:
  "fix_indentation ''- a\<newline>  - b\<newline>    - c'' = ''- a\<newline>        - b\<newline>        - c''
   \<and> postProcessMarkdown ''- a\<newline>  - b'' = ''- a\<newline>        - b\<newline>''"
  by code_simp

subsection \<open>Code blocks\<close>

text \<open>
  C4. The claim: the document \<^verbatim>\<open><pre><code>def f():\n    pass</code></pre>\<close> converts to the
  opening fence with the tag \<^verbatim>\<open>python\<close>, the two lines of the body, the closing fence and one
  line feed. The normaliser attaches the tag \<^verbatim>\<open>python\<close>, but the post-processor then puts an
  empty line between the body and the closing fence. The Turndown-based converter
  returns the block as the claim has it.
\<close>

theorem code_block_scenario_blank_line_before_closing_fence:
  "processCodeBlock \<lparr>className = [], parentClassName = [], textContent = ''def f():\<newline>    pass''\<rparr>
     = \<lparr>className = ''language-python'', parentClassName = [],
        textContent = ''def f():\<newline>    pass''\<rparr>
   \<and> convertToMarkdown_code_block
       \<lparr>className = [], parentClassName = [], textContent = ''def f():\<newline>    pass''\<rparr>
     = ''```python\<newline>def f():\<newline>    pass\<newline>\<newline>```\<newline>''
   \<and> turndown_finish (fencedCodeBlock
       \<lparr>className = [], parentClassName = [], textContent = ''def f():\<newline>    pass''\<rparr>)
     = ''```python\<newline>def f():\<newline>    pass\<newline>```\<newline>''"
  by code_simp

text \<open>
  C9. The claim: an annotation on the code element or on its container is respected, and
  a tag is inferred only when there is none. When the code element has a class that names
  no language and its container has one that does, the code looks at the class of the
  code element only, and attaches an inferred tag beside the annotation of the container.
  When the code element has no class the annotation of the container is respected, and
  a block without annotation and without text gets the tag \<^verbatim>\<open>text\<close>.
\<close>

theorem container_annotation_not_consulted:
  "processCodeBlock
     \<lparr>className = ''hljs'', parentClassName = ''language-python'', textContent = ''x = 1''\<rparr>
   = \<lparr>className = ''hljs language-shell'', parentClassName = ''language-python'',
      textContent = ''x = 1''\<rparr>
   \<and> processCodeBlock
       \<lparr>className = [], parentClassName = ''language-python'', textContent = '' x = 1 ''\<rparr>
     = \<lparr>className = [], parentClassName = ''language-python'', textContent = ''x = 1''\<rparr>
   \<and> processCodeBlock \<lparr>className = [], parentClassName = [], textContent = ''  \<newline>''\<rparr>
     = \<lparr>className = ''language-text'', parentClassName = [], textContent = []\<rparr>"
  by code_simp

subsection \<open>Rewrites inside code blocks\<close>

text \<open>
  C10. The rewrites of the post-processor apply inside a fenced code block as they do in
  prose: in the block below the line \<^verbatim>\<open>**x**\<close> becomes \<^verbatim>\<open>### x\<close> and the line \<^verbatim>\<open>5. y\<close> becomes
  \<^verbatim>\<open>1. y\<close>.
\<close>

theorem rewrites_apply_inside_code_blocks:
  "postProcessMarkdown ''intro\<newline>\<newline>```text\<newline>**x**\<newline>5. y\<newline>```''
   = ''intro\<newline>\<newline>```text\<newline>### x\<newline>1. y\<newline>\<newline>```\<newline>''"
  by code_simp

subsection \<open>Idempotence\<close>




subsection \<open>Trailing form\<close>

text \<open>
  C2, as amended. Whatever Markdown the translator returns, the text that
  \<^verbatim>\<open>convertToMarkdown\<close> of App.tsx returns, \<open>postProcessMarkdown\<close> of it, ends with one line
  feed and has no white space before that line feed. The Turndown-based converter, which
  removes the blanks at the ends of the lines before it trims, returns a text that ends
  with one line feed and has no space or tab at the end of any line.
\<close>

theorem facade_output_trailing_form:
  "ends_with_one_line_break (postProcessMarkdown md) \<and> trailing_form (turndown_finish md)"
proof
  show "ends_with_one_line_break (postProcessMarkdown md)"
    unfolding postProcessMarkdown_def single_trailing_newline_def
    by (intro trimmed_ends_with_one_line_break trim_is_trimmed)
next
  show "trailing_form (turndown_finish md)" by (rule turndown_finish_trailing_form)
qed

text \<open>
  C2 as stated fails: spaces at the end of a line inside the document stay. The line
  \<^verbatim>\<open>a\<close> below keeps its two spaces, the form of a hard line break in Markdown.
\<close>

theorem interior_trailing_spaces_kept:
  "postProcessMarkdown ''a  \<newline>b'' = ''a  \<newline>b\<newline>''
   \<and> \<not> trailing_form (postProcessMarkdown ''a  \<newline>b'')"
  by code_simp

subsection \<open>Ordered lists\<close>

text \<open>
  C7. Step 2 rewrites the marker of every item of an ordered list to \<^verbatim>\<open>1.\<close> followed by
  one space, whatever its number and its indentation, and leaves the rest of the line
  alone. For a list of items at the top level with plain bodies the whole post-processor
  returns the items with the marker \<^verbatim>\<open>1.\<close> on each, and one line feed at the end. In
  particular it turns the markers 1., 2., 3. and the markers 1., 1., 1. into 1. on every
  item.
\<close>

theorem ordered_markers_renumbered:
  "(list_all valid_item items \<longrightarrow>
      fix_ordered_prefix (join_lines (map item_line items))
        = join_lines (map renumbered_line items))
   \<and> (items \<noteq> [] \<and> list_all plain_item items \<longrightarrow>
      postProcessMarkdown (join_lines (map item_line items))
        = join_lines (map renumbered_line items) @ [CHR 0x0A])
   \<and> postProcessMarkdown ''1. a\<newline>2. b\<newline>3. c'' = ''1. a\<newline>1. b\<newline>1. c\<newline>''
   \<and> postProcessMarkdown ''1. a\<newline>1. b\<newline>1. c'' = ''1. a\<newline>1. b\<newline>1. c\<newline>''"
proof (intro conjI impI)
  assume "list_all valid_item items"
  then show "fix_ordered_prefix (join_lines (map item_line items))
             = join_lines (map renumbered_line items)"
    unfolding fix_ordered_prefix_def replace_g_def by (intro renumber_lines) simp_all
next
  assume a: "items \<noteq> [] \<and> list_all plain_item items"
  from a have 1: "items \<noteq> []" and 2: "list_all plain_item items" by blast+
  show "postProcessMarkdown (join_lines (map item_line items))
        = join_lines (map renumbered_line items) @ [CHR 0x0A]"
    by (rule postProcess_plain_items[OF 1 2])
next
  show "postProcessMarkdown ''1. a\<newline>2. b\<newline>3. c'' = ''1. a\<newline>1. b\<newline>1. c\<newline>''"
    by code_simp
next
  show "postProcessMarkdown ''1. a\<newline>1. b\<newline>1. c'' = ''1. a\<newline>1. b\<newline>1. c\<newline>''"
    by code_simp
qed

text \<open>The theorem at a list of three items numbered 7, 12 and 3, a tab after the second
  marker.\<close>

theorem ordered_markers_renumbered_witness:
  "list_all valid_item
     [\<lparr>indent = [], number = ''7'', sep = CHR '' '', body = ''a''\<rparr>,
      \<lparr>indent = [], number = ''12'', sep = CHR 0x09, body = ''b''\<rparr>,
      \<lparr>indent = [], number = ''3'', sep = CHR '' '', body = ''c d''\<rparr>]
   \<and> list_all plain_item
     [\<lparr>indent = [], number = ''7'', sep = CHR '' '', body = ''a''\<rparr>,
      \<lparr>indent = [], number = ''12'', sep = CHR 0x09, body = ''b''\<rparr>,
      \<lparr>indent = [], number = ''3'', sep = CHR '' '', body = ''c d''\<rparr>]
   \<and> fix_ordered_prefix (''7. a\<newline>12.'' @ [CHR 0x09] @ ''b\<newline>3. c d'')
     = ''1. a\<newline>1. b\<newline>1. c d''
   \<and> postProcessMarkdown (''7. a\<newline>12.'' @ [CHR 0x09] @ ''b\<newline>3. c d'')
     = ''1. a\<newline>1. b\<newline>1. c d\<newline>''"
proof -
  let ?items = "[\<lparr>indent = [], number = ''7'', sep = CHR '' '', body = ''a''\<rparr>,
      \<lparr>indent = [], number = ''12'', sep = CHR 0x09, body = ''b''\<rparr>,
      \<lparr>indent = [], number = ''3'', sep = CHR '' '', body = ''c d''\<rparr>]"
  have h1: "list_all valid_item ?items" by code_simp
  have h2: "list_all plain_item ?items" by code_simp
  have h3: "?items \<noteq> []" by simp
  from ordered_markers_renumbered[of ?items] h1
  have "fix_ordered_prefix (join_lines (map item_line ?items))
        = join_lines (map renumbered_line ?items)" by blast
  then have a: "fix_ordered_prefix (''7. a\<newline>12.'' @ [CHR 0x09] @ ''b\<newline>3. c d'')
             = ''1. a\<newline>1. b\<newline>1. c d''"
    by (simp add: item_line_def renumbered_line_def)
  from ordered_markers_renumbered[of ?items] h2 h3
  have "postProcessMarkdown (join_lines (map item_line ?items))
        = join_lines (map renumbered_line ?items) @ [CHR 0x0A]" by blast
  then have b: "postProcessMarkdown (''7. a\<newline>12.'' @ [CHR 0x09] @ ''b\<newline>3. c d'')
             = ''1. a\<newline>1. b\<newline>1. c d\<newline>''"
    by (simp add: item_line_def renumbered_line_def)
  from h1 h2 a b show ?thesis by blast
qed

subsection \<open>Heading promotion\<close>

text \<open>
  C8, as amended. A paragraph that is one bold span without an asterisk inside becomes a
  heading of level 3. For the rule \<^verbatim>\<open>emphasisHeading\<close>: when the trimmed content is \<^verbatim>\<open>**\<close>, a
  text \<open>t\<close> without asterisk, \<^verbatim>\<open>**\<close>, and is shorter than 100, the replacement is \<^verbatim>\<open>### \<close> and
  \<open>t\<close> between blank lines. For step 1 of the post-processor: such a line, \<open>t\<close> within one
  line, becomes \<^verbatim>\<open>### \<close> and \<open>t\<close>; and in every document made of prose lines, items and
  bold-only lines, step 1 turns each bold-only line into \<^verbatim>\<open>### \<close> and its text and leaves the
  other lines, and the post-processor returns the document with these headings, the
  items renumbered and one line feed at the end. Both converters turn
  \<^verbatim>\<open>**Section Title**\<close> into the line \<^verbatim>\<open>### Section Title\<close>.
\<close>

theorem bold_paragraph_becomes_heading:
  "(trim content = ''**'' @ t @ ''**'' \<and> t \<noteq> [] \<and> CHR ''*'' \<notin> set t
      \<and> length (trim content) < 100
     \<longrightarrow> emphasisHeading content = ''\<newline>\<newline>### '' @ t @ ''\<newline>\<newline>'')
   \<and> (t \<noteq> [] \<and> CHR ''*'' \<notin> set t \<and> CHR 0x0A \<notin> set t
     \<longrightarrow> fix_emphasis_heading (''**'' @ t @ ''**'') = ''### '' @ t)
   \<and> (doc_ok l0 bs
     \<longrightarrow> fix_emphasis_heading (document l0 bs j)
           = document (promote l0) (map (apsnd promote) bs) j
         \<and> postProcessMarkdown (document l0 bs j)
           = document (settled l0) (map (apsnd settled) bs) 1)
   \<and> line_text (promote (Bold t)) = ''### '' @ t
   \<and> line_text (settled (Bold t)) = ''### '' @ t
   \<and> postProcessMarkdown ''**Section Title**'' = ''### Section Title\<newline>''
   \<and> turndown_finish (emphasisHeading ''**Section Title**'') = ''### Section Title\<newline>''"
proof (intro conjI impI)
  assume a: "trim content = ''**'' @ t @ ''**'' \<and> t \<noteq> [] \<and> CHR ''*'' \<notin> set t
          \<and> length (trim content) < 100"
  from a have 1: "trim content = ''**'' @ t @ ''**''" by (rule conjunct1)
  from a have 2: "t \<noteq> []" and 3: "CHR ''*'' \<notin> set t" and 4: "length (trim content) < 100"
    by blast+
  show "emphasisHeading content = ''\<newline>\<newline>### '' @ t @ ''\<newline>\<newline>''"
    using emphasisHeading_bold[OF 1 2 3 4] by simp
next
  assume a: "t \<noteq> [] \<and> CHR ''*'' \<notin> set t \<and> CHR 0x0A \<notin> set t"
  from a have 2: "t \<noteq> []" and 3: "CHR ''*'' \<notin> set t" and 4: "CHR 0x0A \<notin> set t"
    by blast+
  show "fix_emphasis_heading (''**'' @ t @ ''**'') = ''### '' @ t"
    using fix_emphasis_heading_bold_line[OF 2 3 4] by simp
next
  assume "doc_ok l0 bs"
  then show "fix_emphasis_heading (document l0 bs j)
           = document (promote l0) (map (apsnd promote) bs) j"
    by (rule emphasis_document)
next
  assume "doc_ok l0 bs"
  then show "postProcessMarkdown (document l0 bs j)
           = document (settled l0) (map (apsnd settled) bs) 1"
    by (rule postProcess_document)
next
  show "line_text (promote (Bold t)) = ''### '' @ t" by simp
next
  show "line_text (settled (Bold t)) = ''### '' @ t" by (simp add: settled_def)
next
  show "postProcessMarkdown ''**Section Title**'' = ''### Section Title\<newline>''"
    by code_simp
next
  show "turndown_finish (emphasisHeading ''**Section Title**'') = ''### Section Title\<newline>''"
    by code_simp
qed

text \<open>The theorem at the content \<^verbatim>\<open>**Overview**\<close> between spaces, and at a document whose
  second paragraph is \<^verbatim>\<open>**Overview**\<close>.\<close>

theorem bold_paragraph_becomes_heading_witness:
  "trim '' **Overview**  '' = ''**'' @ ''Overview'' @ ''**''
   \<and> emphasisHeading '' **Overview**  '' = ''\<newline>\<newline>### Overview\<newline>\<newline>''
   \<and> fix_emphasis_heading ''**Overview**'' = ''### Overview''
   \<and> doc_ok (Prose ''Intro'') [(1, Bold ''Overview''), (1, Prose ''Text.'')]
   \<and> document (Prose ''Intro'') [(1, Bold ''Overview''), (1, Prose ''Text.'')] 0
     = ''Intro\<newline>\<newline>**Overview**\<newline>\<newline>Text.''
   \<and> postProcessMarkdown ''Intro\<newline>\<newline>**Overview**\<newline>\<newline>Text.''
     = ''Intro\<newline>\<newline>### Overview\<newline>\<newline>Text.\<newline>''"
proof -
  let ?bs = "[(1, Bold ''Overview''), (1, Prose ''Text.'')]"
  note inst = bold_paragraph_becomes_heading[of "'' **Overview**  ''" "''Overview''"
      "Prose ''Intro''" ?bs 0]
  have h: "trim '' **Overview**  '' = ''**'' @ ''Overview'' @ ''**''" by code_simp
  have a: "emphasisHeading '' **Overview**  '' = ''\<newline>\<newline>### Overview\<newline>\<newline>''"
    using inst h by simp
  have b: "fix_emphasis_heading ''**Overview**'' = ''### Overview''"
    using inst by simp
  have k: "doc_ok (Prose ''Intro'') ?bs" by code_simp
  have d: "document (Prose ''Intro'') ?bs 0 = ''Intro\<newline>\<newline>**Overview**\<newline>\<newline>Text.''"
    by code_simp
  have e: "document (settled (Prose ''Intro'')) (map (apsnd settled) ?bs) 1
           = ''Intro\<newline>\<newline>### Overview\<newline>\<newline>Text.\<newline>''"
    by code_simp
  from inst k have "postProcessMarkdown (document (Prose ''Intro'') ?bs 0)
        = document (settled (Prose ''Intro'')) (map (apsnd settled) ?bs) 1"
    by blast
  then have c: "postProcessMarkdown ''Intro\<newline>\<newline>**Overview**\<newline>\<newline>Text.''
     = ''Intro\<newline>\<newline>### Overview\<newline>\<newline>Text.\<newline>''"
    unfolding d e .
  from h a b k d c show ?thesis by blast
qed

text \<open>
  C8 as stated fails: a short paragraph that is wholly wrapped in the markers of strong
  emphasis and has an asterisk inside, here an emphasised word, stays a bold paragraph in
  both converters.
\<close>

theorem bold_with_inner_emphasis_stays_bold:
  "trim ''**a *b* c**'' = ''**a *b* c**''
   \<and> emphasisHeading ''**a *b* c**'' = ''\<newline>\<newline>**a *b* c**\<newline>\<newline>''
   \<and> turndown_finish (emphasisHeading ''**a *b* c**'') = ''**a *b* c**\<newline>''
   \<and> postProcessMarkdown ''**a *b* c**'' = ''**a *b* c**\<newline>''"
  by code_simp

subsection \<open>Blank lines around fenced code blocks\<close>




end
